theory Spec2Isabelle
  imports Main "HOL-Library.Sublist"
begin

section \<open>Strings and paths: the library functions the tree code calls\<close>

text \<open>
  Go strings are byte sequences; \<open>len\<close> counts bytes. A \<open>string\<close> here is a list of
  characters, one per byte, and \<open>length\<close> is Go's \<open>len\<close>.
\<close>

text \<open>\<open>strings.Split(s, "/")\<close>: all substrings between separators; never empty.\<close>

fun Split :: "string \<Rightarrow> string list" where
  "Split [] = [[]]"
| "Split (c # cs) =
     (if c = CHR ''/'' then [] # Split cs
      else (case Split cs of [] \<Rightarrow> [[c]] | w # ws \<Rightarrow> (c # w) # ws))"

text \<open>\<open>strings.Join(elems, "/")\<close>.\<close>

fun joinSep :: "string list \<Rightarrow> string" where
  "joinSep [] = []"
| "joinSep [e] = e"
| "joinSep (e # f # es) = e @ CHR ''/'' # joinSep (f # es)"

text \<open>
  \<open>filepath.Clean\<close> on a slash-separated system: empty and \<open>.\<close> elements are dropped,
  a \<open>..\<close> element removes the element before it (it stays when there is none and
  the path is not rooted), and the empty result is \<open>.\<close>.
\<close>

definition cleanElem :: "bool \<Rightarrow> string list \<Rightarrow> string \<Rightarrow> string list" where
  "cleanElem rooted out e =
     (if e = [] \<or> e = ''.'' then out
      else if e = ''..'' then
        (if out \<noteq> [] \<and> last out \<noteq> ''..'' then butlast out
         else if \<not> rooted then out @ [''..'']
         else out)
      else out @ [e])"

definition Clean :: "string \<Rightarrow> string" where
  "Clean path =
     (if path = [] then ''.''
      else
        let rooted = (hd path = CHR ''/'');
            out = foldl (cleanElem rooted) [] (Split path);
            s = (if rooted then ''/'' else []) @ joinSep out
        in if s = [] then ''.'' else s)"

text \<open>\<open>filepath.Join\<close>: leading empty elements are ignored, the rest is joined and cleaned.\<close>

fun Join :: "string list \<Rightarrow> string" where
  "Join [] = []"
| "Join (e # es) = (if e \<noteq> [] then Clean (joinSep (e # es)) else Join es)"

text \<open>\<open>strings.TrimPrefix\<close>.\<close>

definition TrimPrefix :: "string \<Rightarrow> string \<Rightarrow> string" where
  "TrimPrefix s pre =
     (if take (length pre) s = pre then drop (length pre) s else s)"

section \<open>Nodes, the heap and the tree model\<close>

text \<open>
  A \<open>*Node\<close> is an address; \<open>nil\<close> is \<open>None\<close>. The heap maps every address to the
  node stored there, and \<open>nextRef\<close> is the first address not yet allocated.
\<close>

type_synonym ref = nat

record Node =
  Name :: string
  Path :: string
  Children :: "ref list"
  Parent :: "ref option"
  IsDir :: bool
  IsHistory :: bool
  X :: int
  Y :: int

record heap =
  store :: "ref \<Rightarrow> Node"
  nextRef :: nat

record TreeModel =
  Root :: "ref option"
  SelectedNode :: "ref option"
  Width :: int
  Height :: int
  ScrollOffset :: int
  ColWidths :: "int \<Rightarrow> int"

text \<open>The zero value of the struct, which \<open>&Node{...}\<close> completes.\<close>

definition zeroNode :: Node where
  "zeroNode = \<lparr>Name = [], Path = [], Children = [], Parent = None,
                IsDir = False, IsHistory = False, X = 0, Y = 0\<rparr>"

definition emptyHeap :: heap where
  "emptyHeap = \<lparr>store = (\<lambda>_. zeroNode), nextRef = 0\<rparr>"

definition alloc :: "heap \<Rightarrow> Node \<Rightarrow> heap \<times> ref" where
  "alloc h n = (h\<lparr>store := (store h)(nextRef h := n), nextRef := Suc (nextRef h)\<rparr>, nextRef h)"

definition upd :: "heap \<Rightarrow> ref \<Rightarrow> (Node \<Rightarrow> Node) \<Rightarrow> heap" where
  "upd h a f = h\<lparr>store := (store h)(a := f (store h a))\<rparr>"

section \<open>buildTree\<close>

text \<open>The search for an existing child with the segment's name (first match wins).\<close>

fun findChild :: "heap \<Rightarrow> ref list \<Rightarrow> string \<Rightarrow> ref option" where
  "findChild h [] part = None"
| "findChild h (c # cs) part =
     (if Name (store h c) = part then Some c else findChild h cs part)"

text \<open>
  The body of the loop over the segments of one path, for the segment \<open>part\<close> at
  the node \<open>current\<close>; \<open>notLast\<close> is \<open>i < len(parts)-1\<close>. The result is the heap and
  the next \<open>current\<close>.
\<close>

definition stepPart ::
  "(string \<Rightarrow> bool) \<Rightarrow> string \<Rightarrow> bool \<Rightarrow> heap \<Rightarrow> ref \<Rightarrow> string \<Rightarrow> heap \<times> ref" where
  "stepPart historyPaths path notLast h current part =
     (case findChild h (Children (store h current)) part of
        None \<Rightarrow>
          let isDir = notLast;
              childPath = Join [Path (store h current), part];
              isHistory = (historyPaths path \<or> historyPaths childPath);
              (h1, child) = alloc h (zeroNode\<lparr>Name := part, Path := childPath,
                                Parent := Some current, IsDir := isDir, IsHistory := isHistory\<rparr>);
              h2 = upd h1 current (\<lambda>n. n\<lparr>Children := Children n @ [child]\<rparr>);
              h3 = upd h2 child (\<lambda>n. n\<lparr>IsDir := True\<rparr>)
          in (h3, child)
      | Some child \<Rightarrow>
          let h1 = (if historyPaths path \<or> historyPaths (Path (store h child))
                    then upd h child (\<lambda>n. n\<lparr>IsHistory := True\<rparr>) else h);
              h2 = upd h1 child (\<lambda>n. n\<lparr>IsDir := True\<rparr>)
          in (h2, child))"

text \<open>The loop itself, over the segments still to insert.\<close>

fun insertParts :: "(string \<Rightarrow> bool) \<Rightarrow> string \<Rightarrow> string list \<Rightarrow> heap \<Rightarrow> ref \<Rightarrow> heap \<times> ref" where
  "insertParts historyPaths path [] h current = (h, current)"
| "insertParts historyPaths path (part # rest) h current =
     (let (h1, child) = stepPart historyPaths path (rest \<noteq> []) h current part
      in insertParts historyPaths path rest h1 child)"

definition insertPath :: "(string \<Rightarrow> bool) \<Rightarrow> ref \<Rightarrow> heap \<Rightarrow> string \<Rightarrow> heap" where
  "insertPath historyPaths root h path =
     (let (h1, current) = insertParts historyPaths path (Split path) h root
      in if historyPaths path then upd h1 current (\<lambda>n. n\<lparr>IsHistory := True\<rparr>) else h1)"

definition buildTree :: "string list \<Rightarrow> (string \<Rightarrow> bool) \<Rightarrow> heap \<times> ref" where
  "buildTree paths historyPaths =
     (let (h0, root) = alloc emptyHeap (zeroNode\<lparr>Name := ''ROOT'', IsDir := True, Path := ''.''\<rparr>)
      in (foldl (insertPath historyPaths root) h0 paths, root))"

section \<open>compressTree\<close>

text \<open>
  A recursion over the heap need not end (a cyclic heap would make the code loop):
  these functions return \<open>None\<close> when the code does not return.
\<close>

fun ofold :: "('s \<Rightarrow> 'a \<Rightarrow> 's option) \<Rightarrow> 'a list \<Rightarrow> 's \<Rightarrow> 's option" where
  "ofold f [] s = Some s"
| "ofold f (x # xs) s = Option.bind (f s x) (ofold f xs)"

lemma ofold_mono [partial_function_mono]:
  assumes "\<And>s x. mono_option (\<lambda>f. F f s x)"
  shows "mono_option (\<lambda>f. ofold (F f) xs s)"
proof (induction xs arbitrary: s)
  case Nil
  show ?case by (simp add: option.const_mono)
next
  case (Cons x xs)
  show ?case
    unfolding ofold.simps
    by (rule bind_mono) (rule assms, rule Cons.IH)
qed

partial_function (option) countLeaves :: "heap \<Rightarrow> ref \<Rightarrow> int option" where
  "countLeaves h n =
     (if Children (store h n) = [] then Some 1
      else ofold (\<lambda>count c. Option.bind (countLeaves h c) (\<lambda>k. Some (count + k)))
             (Children (store h n)) 0)"

declare countLeaves.simps [code]

text \<open>The merge of a node with its only child, grandchildren re-parented.\<close>

definition mergeChild :: "heap \<Rightarrow> ref \<Rightarrow> ref \<Rightarrow> heap" where
  "mergeChild h node child =
     (let c = store h child;
          h1 = upd h node (\<lambda>n. n\<lparr>Name := Join [Name n, Name c], Path := Path c,
                                   IsDir := IsDir c, Children := Children c\<rparr>)
      in foldl (\<lambda>h' grandChild. upd h' grandChild (\<lambda>g. g\<lparr>Parent := Some node\<rparr>))
           h1 (Children (store h1 node)))"

partial_function (option) compressTree :: "heap \<Rightarrow> ref \<Rightarrow> heap option" where
  "compressTree h node =
     (if \<not> IsDir (store h node) \<or> Children (store h node) = [] then Some h
      else
        Option.bind (ofold compressTree (Children (store h node)) h) (\<lambda>h1.
          if Name (store h1 node) = ''ROOT'' then Some h1
          else if length (Children (store h1 node)) = 1 then
            (let child = hd (Children (store h1 node));
                 potentialNameLen = int (length (Name (store h1 node))) + 1
                                      + int (length (Name (store h1 child)))
             in if potentialNameLen > 18 then
                  Option.bind (countLeaves h1 child) (\<lambda>leaves.
                    if leaves > 4 then Some h1
                    else compressTree (mergeChild h1 node child) node)
                else compressTree (mergeChild h1 node child) node)
          else Some h1))"

declare compressTree.simps [code]

section \<open>findNode and NewTreeModel\<close>

text \<open>The stack loop of \<open>findNode\<close>: the top of the stack is its last element.\<close>

partial_function (option) findLoop :: "heap \<Rightarrow> string \<Rightarrow> ref list \<Rightarrow> ref option option" where
  "findLoop h targetPath stack =
     (if stack = [] then Some None
      else
        let n = last stack; stack1 = butlast stack
        in if Path (store h n) = targetPath then Some (Some n)
           else findLoop h targetPath (stack1 @ Children (store h n)))"

declare findLoop.simps [code]

definition findNode :: "heap \<Rightarrow> ref \<Rightarrow> string \<Rightarrow> ref option option" where
  "findNode h root targetPath =
     (if Path (store h root) = targetPath then Some (Some root)
      else findLoop h targetPath [root])"

definition NewTreeModel ::
  "string list \<Rightarrow> int \<Rightarrow> int \<Rightarrow> (string \<Rightarrow> bool) \<Rightarrow> (heap \<times> TreeModel) option" where
  "NewTreeModel paths width height historyPaths =
     (let (h0, root) = buildTree paths historyPaths
      in Option.bind (compressTree h0 root) (\<lambda>h.
           let tm = \<lparr>Root = Some root, SelectedNode = None, Width = width, Height = height,
                     ScrollOffset = 0, ColWidths = (\<lambda>_. 0)\<rparr>
           in if paths \<noteq> [] then
                Option.bind (findNode h root (hd paths)) (\<lambda>bestMatch.
                  if bestMatch \<noteq> None then Some (h, tm\<lparr>SelectedNode := bestMatch\<rparr>)
                  else if Children (store h root) \<noteq> [] then
                    Some (h, tm\<lparr>SelectedNode := Some (hd (Children (store h root)))\<rparr>)
                  else Some (h, tm\<lparr>SelectedNode := Some root\<rparr>))
              else if Children (store h root) \<noteq> [] then
                Some (h, tm\<lparr>SelectedNode := Some (hd (Children (store h root)))\<rparr>)
              else Some (h, tm\<lparr>SelectedNode := Some root\<rparr>)))"

definition SelectedPath :: "heap \<Rightarrow> TreeModel \<Rightarrow> string" where
  "SelectedPath h m =
     (case SelectedNode m of
        Some n \<Rightarrow> TrimPrefix (Path (store h n)) ''ROOT/''
      | None \<Rightarrow> [])"

text \<open>A Go map from strings to booleans whose only keys are \<open>ps\<close>, all \<open>true\<close>.\<close>

definition historyOf :: "string list \<Rightarrow> string \<Rightarrow> bool" where
  "historyOf ps p = (p \<in> set ps)"

section \<open>Navigation\<close>

text \<open>The position at which the loop over the siblings first meets the selection.\<close>

fun firstIndex :: "ref list \<Rightarrow> ref \<Rightarrow> nat option" where
  "firstIndex [] x = None"
| "firstIndex (y # ys) x = (if y = x then Some 0 else map_option Suc (firstIndex ys x))"

definition moveSelection :: "heap \<Rightarrow> TreeModel \<Rightarrow> int \<Rightarrow> TreeModel" where
  "moveSelection h m delta =
     (case SelectedNode m of
        None \<Rightarrow> m
      | Some sel \<Rightarrow>
          (case Parent (store h sel) of
             None \<Rightarrow> m
           | Some p \<Rightarrow>
               let siblings = Children (store h p)
               in (case firstIndex siblings sel of
                     None \<Rightarrow> m
                   | Some i \<Rightarrow>
                       let next = int i + delta
                       in if next \<ge> 0 \<and> next < int (length siblings)
                          then m\<lparr>SelectedNode := Some (siblings ! nat next)\<rparr>
                          else m)))"

definition enterDirectory :: "heap \<Rightarrow> TreeModel \<Rightarrow> TreeModel" where
  "enterDirectory h m =
     (case SelectedNode m of
        None \<Rightarrow> m
      | Some sel \<Rightarrow>
          if IsDir (store h sel) \<and> length (Children (store h sel)) > 0
          then m\<lparr>SelectedNode := Some (hd (Children (store h sel)))\<rparr>
          else m)"

definition leaveDirectory :: "heap \<Rightarrow> TreeModel \<Rightarrow> TreeModel" where
  "leaveDirectory h m =
     (case SelectedNode m of
        None \<Rightarrow> m
      | Some sel \<Rightarrow>
          (case Parent (store h sel) of
             None \<Rightarrow> m
           | Some p \<Rightarrow>
               if Parent (store h p) \<noteq> None then m\<lparr>SelectedNode := Some p\<rparr> else m))"

section \<open>Visibility\<close>

text \<open>The walk from the selection up the parent pointers, marking every node met.\<close>

partial_function (option) expandLoop ::
  "heap \<Rightarrow> ref option \<Rightarrow> (ref \<Rightarrow> bool) \<Rightarrow> (ref \<Rightarrow> bool) option" where
  "expandLoop h cur expanded =
     (case cur of
        None \<Rightarrow> Some expanded
      | Some c \<Rightarrow> expandLoop h (Parent (store h c)) (expanded(c := True)))"

declare expandLoop.simps [code]

definition getExpandedMap :: "heap \<Rightarrow> TreeModel \<Rightarrow> (ref \<Rightarrow> bool) option" where
  "getExpandedMap h m =
     (let expanded = (\<lambda>_. False);
          expanded1 = (case Root m of Some r \<Rightarrow> expanded(r := True) | None \<Rightarrow> expanded)
      in expandLoop h (SelectedNode m) expanded1)"

text \<open>
  The walk of \<open>getVisibleChildren\<close> from the selection upwards, looking for the node
  whose parent is \<open>node\<close>: \<open>Some (Some c)\<close> when it is found, \<open>Some None\<close> when the
  walk reaches \<open>nil\<close>.
\<close>

partial_function (option) pathChild :: "heap \<Rightarrow> ref \<Rightarrow> ref option \<Rightarrow> ref option option" where
  "pathChild h node cur =
     (case cur of
        None \<Rightarrow> Some None
      | Some c \<Rightarrow>
          if Parent (store h c) = Some node then Some (Some c)
          else pathChild h node (Parent (store h c)))"

declare pathChild.simps [code]

definition getVisibleChildren ::
  "heap \<Rightarrow> TreeModel \<Rightarrow> ref \<Rightarrow> (ref \<Rightarrow> bool) \<Rightarrow> ref list option" where
  "getVisibleChildren h m node expanded =
     (if \<not> expanded node then Some []
      else
        (case SelectedNode m of
           Some sel \<Rightarrow>
             if node = sel \<or> Some node = Parent (store h sel) then Some (Children (store h node))
             else Option.bind (pathChild h node (Some sel)) (\<lambda>r.
                    case r of
                      Some c \<Rightarrow> Some [c]
                    | None \<Rightarrow> Some (Children (store h node)))
         | None \<Rightarrow> Some (Children (store h node))))"

section \<open>The rebuild on new search results\<close>

text \<open>
  The rebuild of the tree when search results arrive (the \<open>searchDoneMsg\<close> case of the
  program's \<open>Update\<close>): the dimensions come from the window, or from the previous tree
  or the defaults while the window size is not known; the previous selection is not
  consulted.
\<close>

definition searchDone ::
  "int \<Rightarrow> int \<Rightarrow> TreeModel \<Rightarrow> string list \<Rightarrow> (string \<Rightarrow> bool) \<Rightarrow> (heap \<times> TreeModel) option" where
  "searchDone mwidth mheight tree paths historyPaths =
     (let treeWidth = mwidth;
          treeHeight = mheight - 3;
          unset = (treeWidth = 0 \<or> treeHeight \<le> 0);
          treeWidth1 = (if unset then (if Width tree > 0 then Width tree else 80) else treeWidth);
          treeHeight1 = (if unset then (if Height tree > 0 then Height tree else 20) else treeHeight)
      in NewTreeModel paths treeWidth1 treeHeight1 historyPaths)"

section \<open>The display root\<close>

text \<open>
  The display root of \<open>View\<close>: from the root, descend while the node has exactly one
  child and that child is a directory.
\<close>

partial_function (option) displayRoot :: "heap \<Rightarrow> ref \<Rightarrow> ref option" where
  "displayRoot h d =
     (if length (Children (store h d)) = 1 \<and> IsDir (store h (hd (Children (store h d))))
      then displayRoot h (hd (Children (store h d)))
      else Some d)"

declare displayRoot.simps [code]

section \<open>Layout\<close>

text \<open>\<open>strings.Contains\<close>.\<close>

fun Contains :: "string \<Rightarrow> string \<Rightarrow> bool" where
  "Contains [] sub = (sub = [])"
| "Contains (c # s) sub = (prefix sub (c # s) \<or> Contains s sub)"

text \<open>The three bytes of the character U+2026 (horizontal ellipsis) in UTF-8.\<close>

definition ellipsis :: string where
  "ellipsis = [CHR 0xE2, CHR 0x80, CHR 0xA6]"

text \<open>
  The state of a layout pass: the nodes (whose coordinates the pass writes), the row
  counter of every depth (a missing key of the Go map reads as 0) and the model, whose
  column widths the pass writes. Depths, counters and widths are of the Go type \<open>int\<close>;
  they are integers here (a counter counts nodes and a width is at most 40).
\<close>

record layout =
  nodes :: heap
  yCounters :: "int \<Rightarrow> int"
  model :: TreeModel

text \<open>The width that \<open>layoutAssign\<close> computes for a node (its step 3), capped to 20..40.\<close>

definition nodeWidth :: "TreeModel \<Rightarrow> ref \<Rightarrow> string \<Rightarrow> int" where
  "nodeWidth m node name =
     (let w = int (length name) + 4;
          w1 = (if Some node \<noteq> SelectedNode m \<and> Contains name ''/'' then
                  (let parts = Split name
                   in if length parts > 2
                      then int (length (ellipsis @ ''/'' @ parts ! (length parts - 2) @ ''/''
                                          @ parts ! (length parts - 1))) + 4
                      else w)
                else w);
          w2 = (if w1 > 40 then 40 else w1)
      in if w2 < 20 then 20 else w2)"

partial_function (option) layoutAssign ::
  "(ref \<Rightarrow> bool) \<Rightarrow> int \<Rightarrow> layout \<Rightarrow> ref \<Rightarrow> layout option" where
  "layoutAssign expanded depth s node =
     (let h1 = upd (nodes s) node (\<lambda>n. n\<lparr>X := depth\<rparr>);
          h2 = upd h1 node (\<lambda>n. n\<lparr>Y := yCounters s depth\<rparr>);
          yCounters1 = (yCounters s)(depth := yCounters s depth + 1);
          w = nodeWidth (model s) node (Name (store h2 node));
          m1 = (if w > ColWidths (model s) depth
                then (model s)\<lparr>ColWidths := (ColWidths (model s))(depth := w)\<rparr> else model s)
      in Option.bind (getVisibleChildren h2 m1 node expanded) (\<lambda>children.
           ofold (layoutAssign expanded (depth + 1)) children
             \<lparr>nodes = h2, yCounters = yCounters1, model = m1\<rparr>))"

declare layoutAssign.simps [code]

definition layoutRoot :: "heap \<Rightarrow> TreeModel \<Rightarrow> ref \<Rightarrow> (ref \<Rightarrow> bool) \<Rightarrow> layout option" where
  "layoutRoot h m root expanded =
     layoutAssign expanded 0
       \<lparr>nodes = h, yCounters = (\<lambda>_. 0), model = m\<lparr>ColWidths := (\<lambda>_. 0)\<rparr>\<rparr> root"

section \<open>View\<close>

text \<open>
  The failures of the Go runtime that \<open>View\<close> can meet: the selection read through a nil
  pointer, \<open>make\<close> with a negative length, an index outside a slice, and a slice
  expression with a negative bound.
\<close>

datatype error = NilPointer | NegativeLength | IndexOutOfRange | SliceOutOfRange

text \<open>
  A computation that may fail, inside a recursion that may not return: \<open>None\<close> when the
  code does not return, \<open>Some (Inl e)\<close> when it panics with \<open>e\<close>, \<open>Some (Inr x)\<close> when
  it returns \<open>x\<close>.
\<close>

definition rbind :: "(error + 'a) option \<Rightarrow> ('a \<Rightarrow> (error + 'b) option) \<Rightarrow> (error + 'b) option" where
  "rbind c f = Option.bind c (\<lambda>r. case r of Inl e \<Rightarrow> Some (Inl e) | Inr x \<Rightarrow> f x)"

lemma rbind_mono [partial_function_mono]:
  assumes mf: "mono_option B" and mg: "\<And>y. mono_option (\<lambda>f. C y f)"
  shows "mono_option (\<lambda>f. rbind (B f) (\<lambda>y. C y f))"
  unfolding rbind_def
proof (rule bind_mono[OF mf])
  fix r :: "error + 'c"
  show "mono_option (\<lambda>f. case r of Inl e \<Rightarrow> Some (Inl e) | Inr x \<Rightarrow> C x f)"
    by (cases r) (simp_all add: option.const_mono mg)
qed

fun rfold :: "('s \<Rightarrow> 'a \<Rightarrow> (error + 's) option) \<Rightarrow> 'a list \<Rightarrow> 's \<Rightarrow> (error + 's) option" where
  "rfold f [] s = Some (Inr s)"
| "rfold f (x # xs) s = rbind (f s x) (rfold f xs)"

lemma rfold_mono [partial_function_mono]:
  assumes "\<And>s x. mono_option (\<lambda>f. F f s x)"
  shows "mono_option (\<lambda>f. rfold (F f) xs s)"
proof (induction xs arbitrary: s)
  case Nil
  show ?case by (simp add: option.const_mono)
next
  case (Cons x xs)
  show ?case
    unfolding rfold.simps
    by (rule rbind_mono) (rule assms, rule Cons.IH)
qed



type_synonym canvas = "string list list"




















text \<open>The lines of the canvas joined, with a newline after every line but the last.\<close>

fun flatten :: "int \<Rightarrow> int \<Rightarrow> canvas \<Rightarrow> string" where
  "flatten height i [] = []"
| "flatten height i (line # rest) =
     concat line @ (if i < height - 1 then [CHR 0x0A] else []) @ flatten height (i + 1) rest"


section \<open>Notions used to state and prove the properties\<close>

text \<open>
  None of the definitions of this section models code: they are the vocabulary of the
  invariants (tree shape of the heap, reachability, the walk along segment names) and of
  the statements (clean paths, first-occurrence order).
\<close>

definition cleanSeg :: "string \<Rightarrow> bool" where
  "cleanSeg e = (e \<noteq> [] \<and> CHR ''/'' \<notin> set e \<and> e \<noteq> ''.'' \<and> e \<noteq> ''..'')"

definition cleanPath :: "string \<Rightarrow> bool" where
  "cleanPath p = list_all cleanSeg (Split p)"

definition pathOf :: "string list \<Rightarrow> string" where
  "pathOf q = foldl (\<lambda>p e. Join [p, e]) ''.'' q"

definition ordered :: "heap \<Rightarrow> bool" where
  "ordered h = (\<forall>a. \<forall>c \<in> set (Children (store h a)). a < c \<and> c < nextRef h)"

function wt :: "heap \<Rightarrow> ref \<Rightarrow> nat" where
  "wt h a = Suc (sum_list (map (wt h) (filter (\<lambda>c. a < c \<and> c < nextRef h) (Children (store h a)))))"
  by pat_completeness auto
termination
  by (relation "measure (\<lambda>(h, a). nextRef h - a)") auto

inductive mergeStep :: "heap \<Rightarrow> heap \<Rightarrow> bool" where
  "Children (store h n) = [c] \<Longrightarrow> Name (store h n) \<noteq> ''ROOT''
     \<Longrightarrow> mergeStep h (mergeChild h n c)"

inductive reach :: "heap \<Rightarrow> ref \<Rightarrow> ref \<Rightarrow> bool" for h r where
  reach_refl: "reach h r r"
| reach_step: "reach h r a \<Longrightarrow> c \<in> set (Children (store h a)) \<Longrightarrow> reach h r c"

inductive mergeStepFrom :: "ref \<Rightarrow> heap \<Rightarrow> heap \<Rightarrow> bool" for k where
  "reach h k n \<Longrightarrow> Children (store h n) = [c] \<Longrightarrow> Name (store h n) \<noteq> ''ROOT''
     \<Longrightarrow> mergeStepFrom k h (mergeChild h n c)"

definition pord :: "heap \<Rightarrow> bool" where
  "pord h = (\<forall>a p. Parent (store h a) = Some p \<longrightarrow> p < a)"

definition distinctC :: "heap \<Rightarrow> bool" where
  "distinctC h = (\<forall>a. distinct (Children (store h a)))"

definition treeish :: "heap \<Rightarrow> ref \<Rightarrow> bool" where
  "treeish h r = (\<forall>a x. reach h r a \<longrightarrow> x \<in> set (Children (store h a)) \<longrightarrow> Parent (store h x) = Some a)"

fun walk :: "heap \<Rightarrow> ref \<Rightarrow> string list \<Rightarrow> ref option" where
  "walk h a [] = Some a"
| "walk h a (e # q) =
     (case findChild h (Children (store h a)) e of None \<Rightarrow> None | Some c \<Rightarrow> walk h c q)"

fun firstOcc :: "'a list \<Rightarrow> 'a list" where
  "firstOcc [] = []"
| "firstOcc (x # xs) = x # removeAll x (firstOcc xs)"

definition nexts :: "string list list \<Rightarrow> string list \<Rightarrow> string list" where
  "nexts L q = firstOcc (map (\<lambda>s. s ! length q) (filter (strict_prefix q) L))"

definition names :: "heap \<Rightarrow> ref \<Rightarrow> string list" where
  "names h a = map (\<lambda>c. Name (store h c)) (Children (store h a))"

definition buildInv :: "string list list \<Rightarrow> heap \<Rightarrow> bool" where
  "buildInv L h = (ordered h \<and> 0 < nextRef h
    \<and> (\<forall>q a. walk h 0 q = Some a \<longrightarrow> names h a = nexts L q)
    \<and> (\<forall>q q' a. walk h 0 q = Some a \<longrightarrow> walk h 0 q' = Some a \<longrightarrow> q = q')
    \<and> (\<forall>a < nextRef h. \<exists>q. walk h 0 q = Some a)
    \<and> (\<forall>a c. c \<in> set (Children (store h a)) \<longrightarrow> Parent (store h c) = Some a)
    \<and> Parent (store h 0) = None
    \<and> (\<forall>q a. walk h 0 q = Some a \<longrightarrow> Path (store h a) = pathOf q)
    \<and> (\<forall>a < nextRef h. IsDir (store h a))
    \<and> Name (store h 0) = ''ROOT''
    \<and> pord h)"

definition grown :: "heap \<Rightarrow> heap \<Rightarrow> ref \<Rightarrow> string \<Rightarrow> bool" where
  "grown h h' a0 e = (a0 < nextRef h \<and> nextRef h' = Suc (nextRef h)
     \<and> Name (store h' (nextRef h)) = e
     \<and> Children (store h' (nextRef h)) = []
     \<and> Parent (store h' (nextRef h)) = Some a0
     \<and> Path (store h' (nextRef h)) = Join [Path (store h a0), e]
     \<and> IsDir (store h' (nextRef h))
     \<and> Children (store h' a0) = Children (store h a0) @ [nextRef h]
     \<and> (\<forall>a. a \<noteq> nextRef h \<longrightarrow> Name (store h' a) = Name (store h a)
              \<and> Path (store h' a) = Path (store h a) \<and> Parent (store h' a) = Parent (store h a)
              \<and> IsDir (store h' a) = IsDir (store h a))
     \<and> (\<forall>a. a \<noteq> nextRef h \<longrightarrow> a \<noteq> a0 \<longrightarrow> Children (store h' a) = Children (store h a)))"

definition growStep :: "string list list \<Rightarrow> string list \<Rightarrow> heap \<Rightarrow> ref \<Rightarrow> string \<Rightarrow> heap \<Rightarrow> bool" where
  "growStep L0 q0 h a0 e h' = (buildInv (L0 @ [q0]) h \<and> walk h 0 q0 = Some a0
     \<and> e \<notin> set (names h a0) \<and> grown h h' a0 e)"

definition sameShape :: "heap \<Rightarrow> heap \<Rightarrow> bool" where
  "sameShape h h' = (nextRef h' = nextRef h \<and>
     (\<forall>a. Name (store h' a) = Name (store h a) \<and> Path (store h' a) = Path (store h a)
          \<and> Children (store h' a) = Children (store h a) \<and> Parent (store h' a) = Parent (store h a)
          \<and> (IsDir (store h a) \<longrightarrow> IsDir (store h' a))))"

definition wfTree :: "heap \<Rightarrow> ref \<Rightarrow> bool" where
  "wfTree h r = (ordered h \<and> pord h \<and> distinctC h \<and> treeish h r
                 \<and> Parent (store h r) = None \<and> r < nextRef h)"

definition defaultSelection :: "heap \<Rightarrow> string list \<Rightarrow> ref" where
  "defaultSelection h paths =
     (let fallback = (if Children (store h 0) \<noteq> [] then hd (Children (store h 0)) else 0)
      in if paths \<noteq> [] then
           (case findNode h 0 (hd paths) of Some (Some b) \<Rightarrow> b | _ \<Rightarrow> fallback)
         else fallback)"

text \<open>\<open>anc h a b\<close>: the node \<open>b\<close> is met on the walk from \<open>a\<close> up the parent pointers.\<close>

inductive anc :: "heap \<Rightarrow> ref \<Rightarrow> ref \<Rightarrow> bool" for h where
  anc_parent: "Parent (store h a) = Some b \<Longrightarrow> anc h a b"
| anc_up: "Parent (store h a) = Some b \<Longrightarrow> anc h b c \<Longrightarrow> anc h a c"

text \<open>The states of the engine: a well-formed tree and a selection inside it.\<close>

definition wfState :: "heap \<Rightarrow> TreeModel \<Rightarrow> bool" where
  "wfState h m = (\<exists>r s. Root m = Some r \<and> SelectedNode m = Some s \<and> wfTree h r \<and> reach h r s)"


text \<open>Two heaps that differ in the coordinates of their nodes only.\<close>

definition sameLinks :: "heap \<Rightarrow> heap \<Rightarrow> bool" where
  "sameLinks h h' = (nextRef h' = nextRef h \<and>
     (\<forall>a. Name (store h' a) = Name (store h a) \<and> Path (store h' a) = Path (store h a)
          \<and> Children (store h' a) = Children (store h a) \<and> Parent (store h' a) = Parent (store h a)
          \<and> IsDir (store h' a) = IsDir (store h a) \<and> IsHistory (store h' a) = IsHistory (store h a)))"

text \<open>The nodes that the expanded map marks: the root, the selection and its ancestors.\<close>

definition onPath :: "heap \<Rightarrow> ref \<Rightarrow> ref \<Rightarrow> ref \<Rightarrow> bool" where
  "onPath h r s x = (x = r \<or> x = s \<or> anc h s x)"

text \<open>The nodes of a list are in consecutive rows, in the order of the list.\<close>

definition rowsInOrder :: "heap \<Rightarrow> ref list \<Rightarrow> bool" where
  "rowsInOrder h vs =
     (map (\<lambda>c. Y (store h c)) vs = map (\<lambda>i. Y (store h (hd vs)) + int i) [0..<length vs])"

text \<open>
  What a layout pass from the node \<open>n\<close> at depth \<open>d\<close> does, from the state \<open>st\<close> to
  the state \<open>st'\<close>, in the tree \<open>h\<close> with root \<open>r\<close> and selection \<open>s\<close>.
\<close>

definition laid :: "heap \<Rightarrow> ref \<Rightarrow> ref \<Rightarrow> int \<Rightarrow> layout \<Rightarrow> ref \<Rightarrow> layout \<Rightarrow> bool" where
  "laid h r s d st n st' =
     (sameLinks h (nodes st') \<and> SelectedNode (model st') = Some s
      \<and> (\<forall>k. k < d \<longrightarrow> yCounters st' k = yCounters st k)
      \<and> yCounters st' d = yCounters st d + 1
      \<and> (\<forall>a. \<not> reach h n a \<longrightarrow> store (nodes st') a = store (nodes st) a)
      \<and> X (store (nodes st') n) = d \<and> Y (store (nodes st') n) = yCounters st d
      \<and> (\<forall>vs. getVisibleChildren h (model st) n (onPath h r s) = Some vs \<longrightarrow>
            map (\<lambda>c. Y (store (nodes st') c)) vs
              = map (\<lambda>i. yCounters st (d + 1) + int i) [0..<length vs])
      \<and> (\<forall>a vs. reach h n a \<longrightarrow> getVisibleChildren h (model st) a (onPath h r s) = Some vs
            \<longrightarrow> rowsInOrder (nodes st') vs))"

text \<open>The canvas has the dimensions of the model.\<close>

definition dims :: "TreeModel \<Rightarrow> canvas \<Rightarrow> bool" where
  "dims m cv = (length cv = nat (Height m) \<and> (\<forall>row \<in> set cv. length row = nat (Width m)))"





section \<open>Lemmas\<close>

subsection \<open>Equations for evaluation\<close>

text \<open>
  The same functions with the pairs taken apart by \<open>fst\<close> and \<open>snd\<close> instead of a
  pattern: evaluation by rewriting then computes each heap before it is used.
\<close>

lemma stepPart_code [code]:
  "stepPart historyPaths path notLast h current part =
     (case findChild h (Children (store h current)) part of
        None \<Rightarrow>
          (upd (upd (fst (alloc h (zeroNode\<lparr>Name := part, Path := Join [Path (store h current), part],
                                Parent := Some current, IsDir := notLast,
                                IsHistory := (historyPaths path \<or> historyPaths (Join [Path (store h current), part]))\<rparr>)))
                  current (\<lambda>n. n\<lparr>Children := Children n @ [nextRef h]\<rparr>))
             (nextRef h) (\<lambda>n. n\<lparr>IsDir := True\<rparr>), nextRef h)
      | Some child \<Rightarrow>
          (upd (if historyPaths path \<or> historyPaths (Path (store h child))
                then upd h child (\<lambda>n. n\<lparr>IsHistory := True\<rparr>) else h) child (\<lambda>n. n\<lparr>IsDir := True\<rparr>), child))"
  by (simp add: stepPart_def alloc_def Let_def split: option.splits)

lemma insertParts_code [code]:
  "insertParts historyPaths path [] h current = (h, current)"
  "insertParts historyPaths path (part # rest) h current =
     insertParts historyPaths path rest
       (fst (stepPart historyPaths path (rest \<noteq> []) h current part))
       (snd (stepPart historyPaths path (rest \<noteq> []) h current part))"
  by (simp_all add: case_prod_beta)

lemma insertPath_code [code]:
  "insertPath historyPaths root h path =
     (if historyPaths path
      then upd (fst (insertParts historyPaths path (Split path) h root))
               (snd (insertParts historyPaths path (Split path) h root)) (\<lambda>n. n\<lparr>IsHistory := True\<rparr>)
      else fst (insertParts historyPaths path (Split path) h root))"
  by (simp add: insertPath_def case_prod_beta)

lemma buildTree_code [code]:
  "buildTree paths historyPaths =
     (foldl (insertPath historyPaths 0)
        (fst (alloc emptyHeap (zeroNode\<lparr>Name := ''ROOT'', IsDir := True, Path := ''.''\<rparr>))) paths, 0)"
  by (simp add: buildTree_def alloc_def emptyHeap_def)

lemma Split_nonempty: "Split s \<noteq> []"
  by (induction s) (auto split: list.splits)

lemma joinSep_Split: "joinSep (Split s) = s"
proof (induction s)
  case Nil
  show ?case by simp
next
  case (Cons c cs)
  show ?case
  proof (cases "Split cs")
    case Nil
    then show ?thesis using Split_nonempty[of cs] by simp
  next
    case (Cons w ws)
    then show ?thesis using Cons.IH by (cases ws) auto
  qed
qed

lemma Split_noslash: "CHR ''/'' \<notin> set e \<Longrightarrow> Split e = [e]"
  by (induction e) auto

lemma Split_append_slash: "Split (a @ CHR ''/'' # b) = Split a @ Split b"
proof (induction a)
  case Nil
  show ?case by simp
next
  case (Cons c cs)
  then show ?case using Split_nonempty[of cs] by (cases "Split cs") auto
qed

lemma joinSep_snoc: "q \<noteq> [] \<Longrightarrow> joinSep (q @ [e]) = joinSep q @ CHR ''/'' # e"
  by (induction q rule: joinSep.induct) auto

lemma Split_joinSep:
  "segs \<noteq> [] \<Longrightarrow> \<forall>e \<in> set segs. CHR ''/'' \<notin> set e \<Longrightarrow> Split (joinSep segs) = segs"
proof (induction segs rule: joinSep.induct)
  case 1
  then show ?case by simp
next
  case (2 e)
  then show ?case by (simp add: Split_noslash)
next
  case (3 e f es)
  then show ?case by (simp add: Split_append_slash Split_noslash)
qed

lemma foldl_cleanElem: "list_all cleanSeg segs \<Longrightarrow> foldl (cleanElem r) out segs = out @ segs"
  by (induction segs arbitrary: out) (auto simp: cleanElem_def cleanSeg_def)

lemma joinSep_eq_Nil: "joinSep segs = [] \<Longrightarrow> segs = [] \<or> hd segs = []"
  by (induction segs rule: joinSep.induct) auto

lemma hd_joinSep: "segs \<noteq> [] \<Longrightarrow> hd segs \<noteq> [] \<Longrightarrow> hd (joinSep segs) = hd (hd segs)"
  by (induction segs rule: joinSep.induct) auto

lemma Clean_joinSep:
  assumes "segs \<noteq> []" and "list_all cleanSeg segs"
  shows "Clean (joinSep segs) = joinSep segs"
proof -
  have h: "hd segs \<noteq> []" "CHR ''/'' \<notin> set (hd segs)"
    using assms by (cases segs; auto simp: cleanSeg_def)+
  have ne: "joinSep segs \<noteq> []" using joinSep_eq_Nil[of segs] assms(1) h by auto
  have "hd (joinSep segs) \<noteq> CHR ''/''"
    using hd_joinSep[OF assms(1) h(1)] h by (cases "hd segs") auto
  moreover have "Split (joinSep segs) = segs"
    using assms by (intro Split_joinSep) (auto simp: list_all_iff cleanSeg_def)
  ultimately show ?thesis using ne assms(2) by (simp add: Clean_def Let_def foldl_cleanElem)
qed

lemma Join_dot: "cleanSeg e \<Longrightarrow> Join [''.'', e] = e"
  by (simp add: Clean_def Let_def Split_noslash cleanElem_def cleanSeg_def)

lemma Join_clean:
  assumes "q \<noteq> []" "list_all cleanSeg q" "cleanSeg e"
  shows "Join [joinSep q, e] = joinSep (q @ [e])"
proof -
  have h: "hd q \<noteq> []" using assms by (cases q; auto simp: cleanSeg_def)
  have ne: "joinSep q \<noteq> []" using joinSep_eq_Nil[of q] assms(1) h by auto
  have "Clean (joinSep (q @ [e])) = joinSep (q @ [e])"
    using assms by (intro Clean_joinSep) auto
  then show ?thesis using ne by (simp add: joinSep_snoc[OF assms(1)])
qed

lemma pathOf_clean: "q \<noteq> [] \<Longrightarrow> list_all cleanSeg q \<Longrightarrow> pathOf q = joinSep q"
proof (induction q rule: rev_induct)
  case Nil
  then show ?case by simp
next
  case (snoc e q)
  show ?case
  proof (cases "q = []")
    case True
    then show ?thesis using snoc.prems by (simp add: pathOf_def Join_dot del: Join.simps)
  next
    case False
    then have "pathOf q = joinSep q" using snoc by simp
    then show ?thesis using snoc.prems False
      by (simp add: pathOf_def Join_clean del: Join.simps)
  qed
qed

lemma store_upd [simp]: "store (upd h a f) b = (if b = a then f (store h a) else store h b)"
  by (simp add: upd_def)

lemma nextRef_upd [simp]: "nextRef (upd h a f) = nextRef h"
  by (simp add: upd_def)

declare wt.simps [simp del]

lemma wt_ordered: "ordered h \<Longrightarrow> wt h a = Suc (sum_list (map (wt h) (Children (store h a))))"
  by (subst wt.simps) (simp add: ordered_def)

lemma ofold_total:
  assumes "\<And>s x. x \<in> set xs \<Longrightarrow> \<exists>s'. f s x = Some s'"
  shows "\<exists>s'. ofold f xs s = Some s'"
  using assms
proof (induction xs arbitrary: s)
  case Nil
  then show ?case by simp
next
  case (Cons x xs)
  obtain s1 where "f s x = Some s1" using Cons.prems[of x s] by auto
  moreover obtain s2 where "ofold f xs s1 = Some s2" using Cons.IH[of s1] Cons.prems by auto
  ultimately show ?case by simp
qed

lemma countLeaves_total: "ordered h \<Longrightarrow> \<exists>k. countLeaves h n = Some k"
proof (induction "nextRef h - n" arbitrary: n rule: less_induct)
  case less
  show ?case
  proof (cases "Children (store h n) = []")
    case True
    then show ?thesis by (subst countLeaves.simps) simp
  next
    case False
    have "\<And>s x. x \<in> set (Children (store h n)) \<Longrightarrow>
            \<exists>s'. Option.bind (countLeaves h x) (\<lambda>k. Some (s + k)) = Some s'"
    proof -
      fix s x assume x: "x \<in> set (Children (store h n))"
      then have "n < x" "x < nextRef h" using less.prems by (auto simp: ordered_def)
      then have "nextRef h - x < nextRef h - n" by arith
      from less.hyps[OF this less.prems] obtain k where "countLeaves h x = Some k" by auto
      then show "\<exists>s'. Option.bind (countLeaves h x) (\<lambda>k. Some (s + k)) = Some s'" by simp
    qed
    from ofold_total[of "Children (store h n)" "\<lambda>count c. Option.bind (countLeaves h c) (\<lambda>k. Some (count + k))", OF this]
    show ?thesis using False by (subst countLeaves.simps) simp
  qed
qed

lemma foldl_reparent_store:
  "store (foldl (\<lambda>h' g. upd h' g (\<lambda>x. x\<lparr>Parent := Some n\<rparr>)) h gs) a =
     (if a \<in> set gs then (store h a)\<lparr>Parent := Some n\<rparr> else store h a)"
  by (induction gs arbitrary: h) auto

lemma foldl_reparent_nextRef:
  "nextRef (foldl (\<lambda>h' g. upd h' g (\<lambda>x. x\<lparr>Parent := Some n\<rparr>)) h gs) = nextRef h"
  by (induction gs arbitrary: h) auto

lemma mergeChild_nextRef [simp]: "nextRef (mergeChild h n c) = nextRef h"
  by (simp add: mergeChild_def Let_def foldl_reparent_nextRef)

lemma mergeChild_Children [simp]:
  "Children (store (mergeChild h n c) a) =
     (if a = n then Children (store h c) else Children (store h a))"
  by (simp add: mergeChild_def Let_def foldl_reparent_store)

lemma mergeChild_Path [simp]:
  "Path (store (mergeChild h n c) a) = (if a = n then Path (store h c) else Path (store h a))"
  by (simp add: mergeChild_def Let_def foldl_reparent_store)

lemma mergeChild_Name [simp]:
  "Name (store (mergeChild h n c) a) =
     (if a = n then Join [Name (store h n), Name (store h c)] else Name (store h a))"
  by (simp add: mergeChild_def Let_def foldl_reparent_store)

lemma mergeChild_IsDir [simp]:
  "IsDir (store (mergeChild h n c) a) = (if a = n then IsDir (store h c) else IsDir (store h a))"
  by (simp add: mergeChild_def Let_def foldl_reparent_store)

lemma mergeChild_IsHistory [simp]:
  "IsHistory (store (mergeChild h n c) a) = IsHistory (store h a)"
  by (simp add: mergeChild_def Let_def foldl_reparent_store)

lemma mergeChild_Parent [simp]:
  "Parent (store (mergeChild h n c) a) =
     (if a \<in> set (Children (store h c)) then Some n else Parent (store h a))"
  by (simp add: mergeChild_def Let_def foldl_reparent_store)

lemma ofold_rtranclp:
  assumes "\<And>s x s'. f s x = Some s' \<Longrightarrow> R\<^sup>*\<^sup>* s s'"
    and "ofold f xs s = Some s'"
  shows "R\<^sup>*\<^sup>* s s'"
  using assms(2)
proof (induction xs arbitrary: s)
  case Nil
  then show ?case by simp
next
  case (Cons x xs)
  then obtain s1 where 1: "f s x = Some s1" and 2: "ofold f xs s1 = Some s'"
    by (auto simp: bind_eq_Some_conv)
  from assms(1)[OF 1] Cons.IH[OF 2] show ?case by simp
qed

lemma compressTree_merges:
  assumes "compressTree h0 n0 = Some h0'"
  shows "mergeStep\<^sup>*\<^sup>* h0 h0'"
proof (rule compressTree.raw_induct[where P = "\<lambda>h n h'. mergeStep\<^sup>*\<^sup>* h h'", OF _ assms])
  fix cT :: "heap \<Rightarrow> ref \<Rightarrow> heap option" and h node h'
  assume IH: "\<And>h n h'. cT h n = Some h' \<Longrightarrow> mergeStep\<^sup>*\<^sup>* h h'"
  assume body: "(if \<not> IsDir (store h node) \<or> Children (store h node) = [] then Some h
      else
        Option.bind (ofold cT (Children (store h node)) h) (\<lambda>h1.
          if Name (store h1 node) = ''ROOT'' then Some h1
          else if length (Children (store h1 node)) = 1 then
            (let child = hd (Children (store h1 node));
                 potentialNameLen = int (length (Name (store h1 node))) + 1
                                      + int (length (Name (store h1 child)))
             in if potentialNameLen > 18 then
                  Option.bind (countLeaves h1 child) (\<lambda>leaves.
                    if leaves > 4 then Some h1
                    else cT (mergeChild h1 node child) node)
                else cT (mergeChild h1 node child) node)
          else Some h1)) = Some h'"
  show "mergeStep\<^sup>*\<^sup>* h h'"
  proof (cases "\<not> IsDir (store h node) \<or> Children (store h node) = []")
    case True
    with body show ?thesis by simp
  next
    case False
    with body obtain h1 where
      kids: "ofold cT (Children (store h node)) h = Some h1" and
      rest: "(if Name (store h1 node) = ''ROOT'' then Some h1
          else if length (Children (store h1 node)) = 1 then
            (let child = hd (Children (store h1 node));
                 potentialNameLen = int (length (Name (store h1 node))) + 1
                                      + int (length (Name (store h1 child)))
             in if potentialNameLen > 18 then
                  Option.bind (countLeaves h1 child) (\<lambda>leaves.
                    if leaves > 4 then Some h1
                    else cT (mergeChild h1 node child) node)
                else cT (mergeChild h1 node child) node)
          else Some h1) = Some h'"
      by (auto simp: bind_eq_Some_conv)
    have a: "mergeStep\<^sup>*\<^sup>* h h1"
      by (rule ofold_rtranclp[OF _ kids]) (rule IH)
    show ?thesis
    proof (cases "Name (store h1 node) \<noteq> ''ROOT'' \<and> length (Children (store h1 node)) = 1 \<and> h' \<noteq> h1")
      case False
      then have "h' = h1" using rest by (auto simp: Let_def bind_eq_Some_conv split: if_splits)
      with a show ?thesis by simp
    next
      case True
      then obtain c where c: "Children (store h1 node) = [c]"
        by (cases "Children (store h1 node)") auto
      from True rest c have 2: "cT (mergeChild h1 node c) node = Some h'"
        by (auto simp: Let_def bind_eq_Some_conv split: if_splits)
      have "mergeStep h1 (mergeChild h1 node c)"
        using c True by (intro mergeStep.intros) auto
      with a IH[OF 2] show ?thesis by auto
    qed
  qed
qed

lemma mergeStep_nextRef: "mergeStep h h' \<Longrightarrow> nextRef h' = nextRef h"
  by (induction rule: mergeStep.induct) simp

lemma mergeChild_ordered:
  assumes "ordered h" and "Children (store h n) = [c]"
  shows "ordered (mergeChild h n c)"
proof -
  have "n < c" using assms by (auto simp: ordered_def)
  moreover have "\<forall>g \<in> set (Children (store h c)). c < g \<and> g < nextRef h"
    using assms(1) by (auto simp: ordered_def)
  ultimately show ?thesis using assms(1) unfolding ordered_def
    by (auto simp: less_trans)
qed

lemma mergeStep_ordered: "mergeStep h h' \<Longrightarrow> ordered h \<Longrightarrow> ordered h'"
  by (induction rule: mergeStep.induct) (rule mergeChild_ordered)

lemma mergeChild_wt_le:
  assumes "ordered h" and "Children (store h n) = [c]"
  shows "wt (mergeChild h n c) a \<le> (if a = n then wt h c else wt h a)"
proof (induction "nextRef h - a" arbitrary: a rule: less_induct)
  case less
  let ?h' = "mergeChild h n c"
  have o': "ordered ?h'"
    by (rule mergeChild_ordered[OF assms])
  have nc: "n < c" using assms by (auto simp: ordered_def)
  have kid: "wt ?h' x \<le> wt h x" if "a < x" "x < nextRef h" for x
  proof -
    have "nextRef h - x < nextRef h - a" using that by arith
    from less[OF this] have "wt ?h' x \<le> (if x = n then wt h c else wt h x)" .
    moreover have "wt h c < wt h n" using assms by (simp add: wt_ordered[OF assms(1), of n])
    ultimately show ?thesis by (auto split: if_splits)
  qed
  show ?case
  proof (cases "a = n")
    case True
    have "\<forall>g \<in> set (Children (store h c)). n < g \<and> g < nextRef h"
      using assms(1) nc by (fastforce simp: ordered_def)
    then have "sum_list (map (wt ?h') (Children (store h c))) \<le> sum_list (map (wt h) (Children (store h c)))"
      using True by (intro sum_list_mono kid) auto
    then show ?thesis using True
      by (simp add: wt_ordered[OF o', of n] wt_ordered[OF assms(1), of c])
  next
    case False
    have "sum_list (map (wt ?h') (Children (store h a))) \<le> sum_list (map (wt h) (Children (store h a)))"
      using assms(1) by (intro sum_list_mono kid) (auto simp: ordered_def)
    then show ?thesis using False
      by (simp add: wt_ordered[OF o', of a] wt_ordered[OF assms(1), of a])
  qed
qed

lemma mergeStep_wt_le: "mergeStep h h' \<Longrightarrow> ordered h \<Longrightarrow> wt h' a \<le> wt h a"
proof (induction rule: mergeStep.induct)
  case (1 h n c)
  have "wt h c < wt h n" using 1 by (simp add: wt_ordered[OF "1.prems", of n])
  with mergeChild_wt_le[OF "1.prems" "1.hyps"(1), of a] show ?case by (auto split: if_splits)
qed

lemma merges_ordered: "mergeStep\<^sup>*\<^sup>* h h' \<Longrightarrow> ordered h \<Longrightarrow> ordered h'"
  by (induction rule: rtranclp_induct) (auto intro: mergeStep_ordered)

lemma merges_nextRef: "mergeStep\<^sup>*\<^sup>* h h' \<Longrightarrow> nextRef h' = nextRef h"
  by (induction rule: rtranclp_induct) (auto simp: mergeStep_nextRef)

lemma merges_wt_le: "mergeStep\<^sup>*\<^sup>* h h' \<Longrightarrow> ordered h \<Longrightarrow> wt h' a \<le> wt h a"
proof (induction rule: rtranclp_induct)
  case base
  then show ?case by simp
next
  case (step y z)
  have "ordered y" using step by (auto intro: merges_ordered)
  from mergeStep_wt_le[OF step.hyps(2) this, of a] step.IH[OF step.prems] show ?case by simp
qed

lemma compressKids_total:
  assumes IH: "\<And>h n. wt h n < W \<Longrightarrow> ordered h \<Longrightarrow> \<exists>h'. compressTree h n = Some h'"
    and "ordered h" and "\<forall>c \<in> set cs. wt h c < W"
  shows "\<exists>h1. ofold compressTree cs h = Some h1"
  using assms(2,3)
proof (induction cs arbitrary: h)
  case Nil
  then show ?case by simp
next
  case (Cons x xs)
  from IH[of h x] Cons.prems obtain h1 where 1: "compressTree h x = Some h1" by auto
  have m: "mergeStep\<^sup>*\<^sup>* h h1" by (rule compressTree_merges[OF 1])
  have o1: "ordered h1" by (rule merges_ordered[OF m Cons.prems(1)])
  have "\<forall>c \<in> set xs. wt h1 c < W"
    using merges_wt_le[OF m Cons.prems(1)] Cons.prems(2) by (auto intro: le_less_trans)
  from Cons.IH[OF o1 this] 1 show ?case by simp
qed

lemma compressTree_total: "ordered h \<Longrightarrow> \<exists>h'. compressTree h n = Some h'"
proof (induction "wt h n" arbitrary: h n rule: less_induct)
  case less
  show ?case
  proof (cases "\<not> IsDir (store h n) \<or> Children (store h n) = []")
    case True
    then show ?thesis by (subst compressTree.simps) simp
  next
    case False
    have "\<forall>c \<in> set (Children (store h n)). wt h c < wt h n"
      by (auto simp: wt_ordered[OF less.prems, of n] member_le_sum_list le_imp_less_Suc)
    from compressKids_total[OF less.hyps less.prems this]
    obtain h1 where kids: "ofold compressTree (Children (store h n)) h = Some h1" by blast
    have m: "mergeStep\<^sup>*\<^sup>* h h1"
      by (rule ofold_rtranclp[OF _ kids]) (rule compressTree_merges)
    have o1: "ordered h1" by (rule merges_ordered[OF m less.prems])
    have w1: "wt h1 n \<le> wt h n" by (rule merges_wt_le[OF m less.prems])
    have rec: "\<exists>h'. compressTree (mergeChild h1 n c) n = Some h'" if c: "Children (store h1 n) = [c]" for c
    proof -
      have "wt (mergeChild h1 n c) n \<le> wt h1 c" using mergeChild_wt_le[OF o1 c, of n] by simp
      moreover have "wt h1 c < wt h1 n" using c by (simp add: wt_ordered[OF o1, of n])
      ultimately have "wt (mergeChild h1 n c) n < wt h n" using w1 by arith
      from less.hyps[OF this mergeChild_ordered[OF o1 c]] show ?thesis .
    qed
    show ?thesis
    proof (cases "Children (store h1 n)")
      case Nil
      then show ?thesis using False kids by (subst compressTree.simps) simp
    next
      case (Cons c cs)
      show ?thesis
      proof (cases cs)
        case Nil
        with Cons have c: "Children (store h1 n) = [c]" by simp
        from rec[OF c] obtain h' where r: "compressTree (mergeChild h1 n c) n = Some h'" by blast
        from countLeaves_total[OF o1, of c] obtain k where k: "countLeaves h1 c = Some k" by blast
        show ?thesis using False kids c r k
          by (subst compressTree.simps) (simp add: Let_def)
      next
        case (Cons d ds)
        then show ?thesis using False kids \<open>Children (store h1 n) = c # cs\<close>
          by (subst compressTree.simps) simp
      qed
    qed
  qed
qed

lemma reach_ge: "reach h r a \<Longrightarrow> ordered h \<Longrightarrow> r \<le> a"
  by (induction rule: reach.induct) (auto simp: ordered_def dest: less_imp_le order_trans)

lemma reach_trans: "reach h a b \<Longrightarrow> reach h r a \<Longrightarrow> reach h r b"
  by (induction rule: reach.induct) (auto intro: reach_step)

lemma reach_child: "c \<in> set (Children (store h r)) \<Longrightarrow> reach h c a \<Longrightarrow> reach h r a"
  by (rule reach_trans[of h c a r]) (auto intro: reach.intros)

lemma reach_first:
  "reach h r a \<Longrightarrow> a = r \<or> (\<exists>c \<in> set (Children (store h r)). reach h c a)"
proof (induction rule: reach.induct)
  case reach_refl
  show ?case by simp
next
  case (reach_step a x)
  then show ?case by (auto intro: reach.intros)
qed

lemma mergeStepFrom_mergeStep: "mergeStepFrom k h h' \<Longrightarrow> mergeStep h h'"
  by (induction rule: mergeStepFrom.induct) (rule mergeStep.intros)

lemma mergesFrom_merges: "(mergeStepFrom k)\<^sup>*\<^sup>* h h' \<Longrightarrow> mergeStep\<^sup>*\<^sup>* h h'"
  by (induction rule: rtranclp_induct) (auto dest: mergeStepFrom_mergeStep)

text \<open>Steps below a child are steps below the node, and leave the node's children alone.\<close>

lemma mergesFrom_lift:
  assumes "(mergeStepFrom x)\<^sup>*\<^sup>* h h'" and "ordered h" and "x \<in> set (Children (store h n))"
  shows "(mergeStepFrom n)\<^sup>*\<^sup>* h h' \<and> Children (store h' n) = Children (store h n)"
  using assms(1)
proof (induction rule: rtranclp_induct)
  case base
  then show ?case by simp
next
  case (step y z)
  have oy: "ordered y" using step.hyps(1) assms(2) by (auto intro: merges_ordered mergesFrom_merges)
  have nx: "n < x" using assms(2,3) by (auto simp: ordered_def)
  from step.hyps(2) show ?case
  proof (cases rule: mergeStepFrom.cases)
    case (1 m c)
    have "x \<le> m" using reach_ge[OF 1(2) oy] .
    then have mn: "m \<noteq> n" using nx by simp
    have "x \<in> set (Children (store y n))" using step.IH assms(3) by simp
    then have "reach y n m" using 1(2) by (rule reach_child)
    then have "mergeStepFrom n y z" unfolding 1(1) using 1(3,4) by (rule mergeStepFrom.intros)
    moreover have "Children (store z n) = Children (store y n)" using mn by (simp add: 1(1))
    ultimately show ?thesis using step.IH by (auto intro: rtranclp.rtrancl_into_rtrancl)
  qed
qed

lemma compressKids_mergesFrom:
  assumes IH: "\<And>h c h'. cT h c = Some h' \<Longrightarrow> ordered h \<Longrightarrow> (mergeStepFrom c)\<^sup>*\<^sup>* h h'"
    and "ofold cT cs h = Some h1" and "ordered h" and "set cs \<subseteq> set (Children (store h n))"
  shows "(mergeStepFrom n)\<^sup>*\<^sup>* h h1 \<and> Children (store h1 n) = Children (store h n)"
  using assms(2-)
proof (induction cs arbitrary: h)
  case Nil
  then show ?case by simp
next
  case (Cons x xs)
  then obtain h2 where 1: "cT h x = Some h2" and 2: "ofold cT xs h2 = Some h1"
    by (auto simp: bind_eq_Some_conv)
  have x: "x \<in> set (Children (store h n))" using Cons.prems by simp
  from mergesFrom_lift[OF IH[OF 1 Cons.prems(2)] Cons.prems(2) x]
  have a: "(mergeStepFrom n)\<^sup>*\<^sup>* h h2" and b: "Children (store h2 n) = Children (store h n)" by auto
  have o2: "ordered h2" using a Cons.prems(2) by (auto intro: merges_ordered mergesFrom_merges)
  have "set xs \<subseteq> set (Children (store h2 n))" using Cons.prems(3) b by simp
  from Cons.IH[OF 2 o2 this] a b show ?case by auto
qed

lemma compressTree_mergesFrom:
  assumes "compressTree h0 n0 = Some h0'" and "ordered h0"
  shows "(mergeStepFrom n0)\<^sup>*\<^sup>* h0 h0'"
proof -
  have "ordered h0 \<longrightarrow> (mergeStepFrom n0)\<^sup>*\<^sup>* h0 h0'"
  proof (rule compressTree.raw_induct[where P = "\<lambda>h n h'. ordered h \<longrightarrow> (mergeStepFrom n)\<^sup>*\<^sup>* h h'", OF _ assms(1)])
    fix cT :: "heap \<Rightarrow> ref \<Rightarrow> heap option" and h node h'
    assume IH: "\<And>h n h'. cT h n = Some h' \<Longrightarrow> ordered h \<longrightarrow> (mergeStepFrom n)\<^sup>*\<^sup>* h h'"
    assume body: "(if \<not> IsDir (store h node) \<or> Children (store h node) = [] then Some h
      else
        Option.bind (ofold cT (Children (store h node)) h) (\<lambda>h1.
          if Name (store h1 node) = ''ROOT'' then Some h1
          else if length (Children (store h1 node)) = 1 then
            (let child = hd (Children (store h1 node));
                 potentialNameLen = int (length (Name (store h1 node))) + 1
                                      + int (length (Name (store h1 child)))
             in if potentialNameLen > 18 then
                  Option.bind (countLeaves h1 child) (\<lambda>leaves.
                    if leaves > 4 then Some h1
                    else cT (mergeChild h1 node child) node)
                else cT (mergeChild h1 node child) node)
          else Some h1)) = Some h'"
    show "ordered h \<longrightarrow> (mergeStepFrom node)\<^sup>*\<^sup>* h h'"
    proof
      assume o: "ordered h"
      show "(mergeStepFrom node)\<^sup>*\<^sup>* h h'"
      proof (cases "\<not> IsDir (store h node) \<or> Children (store h node) = []")
        case True
        with body show ?thesis by simp
      next
        case False
        with body obtain h1 where
          kids: "ofold cT (Children (store h node)) h = Some h1" and
          rest: "(if Name (store h1 node) = ''ROOT'' then Some h1
              else if length (Children (store h1 node)) = 1 then
                (let child = hd (Children (store h1 node));
                     potentialNameLen = int (length (Name (store h1 node))) + 1
                                          + int (length (Name (store h1 child)))
                 in if potentialNameLen > 18 then
                      Option.bind (countLeaves h1 child) (\<lambda>leaves.
                        if leaves > 4 then Some h1
                        else cT (mergeChild h1 node child) node)
                    else cT (mergeChild h1 node child) node)
              else Some h1) = Some h'"
          by (auto simp: bind_eq_Some_conv)
        have a: "(mergeStepFrom node)\<^sup>*\<^sup>* h h1"
          using compressKids_mergesFrom[OF _ kids o subset_refl] IH by blast
        have o1: "ordered h1" using a o by (auto intro: merges_ordered mergesFrom_merges)
        show ?thesis
        proof (cases "Name (store h1 node) \<noteq> ''ROOT'' \<and> length (Children (store h1 node)) = 1 \<and> h' \<noteq> h1")
          case False
          then have "h' = h1" using rest by (auto simp: Let_def bind_eq_Some_conv split: if_splits)
          with a show ?thesis by simp
        next
          case True
          then obtain c where c: "Children (store h1 node) = [c]"
            by (cases "Children (store h1 node)") auto
          from True rest c have 2: "cT (mergeChild h1 node c) node = Some h'"
            by (auto simp: Let_def bind_eq_Some_conv split: if_splits)
          have "mergeStepFrom node h1 (mergeChild h1 node c)"
            using c True by (intro mergeStepFrom.intros reach_refl) auto
          moreover have "(mergeStepFrom node)\<^sup>*\<^sup>* (mergeChild h1 node c) h'"
            using IH[OF 2] mergeChild_ordered[OF o1 c] by simp
          ultimately show ?thesis using a
            by (meson rtranclp.rtrancl_into_rtrancl rtranclp_trans)
        qed
      qed
    qed
  qed
  with assms(2) show ?thesis by simp
qed

lemma mergeChild_pord:
  assumes "ordered h" "pord h" "Children (store h n) = [c]"
  shows "pord (mergeChild h n c)"
proof -
  have "n < c" using assms by (auto simp: ordered_def)
  moreover have "\<forall>g \<in> set (Children (store h c)). c < g" using assms(1) by (auto simp: ordered_def)
  ultimately show ?thesis using assms(2) unfolding pord_def by (auto simp: less_trans)
qed

lemma mergeChild_distinctC: "distinctC h \<Longrightarrow> distinctC (mergeChild h n c)"
  by (simp add: distinctC_def)

lemma reach_mergeChild_old:
  assumes "reach (mergeChild h n c) r a" and "Children (store h n) = [c]"
  shows "reach h r a"
  using assms(1)
proof (induction rule: reach.induct)
  case reach_refl
  show ?case by (rule reach.reach_refl)
next
  case (reach_step a x)
  show ?case
  proof (cases "a = n")
    case True
    then have "x \<in> set (Children (store h c))" using reach_step.hyps(2) by simp
    moreover have "reach h r c" using reach_step.IH True assms(2) by (auto intro: reach.reach_step)
    ultimately show ?thesis by (rule reach.reach_step[rotated])
  next
    case False
    then show ?thesis using reach_step by (auto intro: reach.reach_step)
  qed
qed

lemma reach_mergeChild_new:
  assumes "reach h r a" and "Children (store h n) = [c]"
  shows "reach (mergeChild h n c) r a \<or> (a = c \<and> reach (mergeChild h n c) r n)"
  using assms(1)
proof (induction rule: reach.induct)
  case reach_refl
  show ?case by (simp add: reach.reach_refl)
next
  case (reach_step a x)
  show ?case
  proof (cases "a = n")
    case True
    then show ?thesis using reach_step assms(2) by auto
  next
    case False
    from reach_step.IH show ?thesis
    proof
      assume "reach (mergeChild h n c) r a"
      moreover have "x \<in> set (Children (store (mergeChild h n c) a))" using False reach_step.hyps(2) by simp
      ultimately show ?thesis by (auto intro: reach.reach_step)
    next
      assume "a = c \<and> reach (mergeChild h n c) r n"
      moreover then have "x \<in> set (Children (store (mergeChild h n c) n))" using reach_step.hyps(2) by simp
      ultimately show ?thesis by (auto intro: reach.reach_step)
    qed
  qed
qed

lemma mergeChild_leaf:
  assumes "reach h r a" and "Children (store h a) = []" and "Children (store h n) = [c]"
  shows "\<exists>a'. reach (mergeChild h n c) r a' \<and> Children (store (mergeChild h n c) a') = []
            \<and> Path (store (mergeChild h n c) a') = Path (store h a)"
proof -
  have an: "a \<noteq> n" using assms(2,3) by auto
  from reach_mergeChild_new[OF assms(1,3)] show ?thesis
  proof
    assume "reach (mergeChild h n c) r a"
    then show ?thesis using an assms(2) by (intro exI[of _ a]) simp
  next
    assume "a = c \<and> reach (mergeChild h n c) r n"
    then show ?thesis using assms(2) by (intro exI[of _ n]) simp
  qed
qed

lemma absorbed_unreachable:
  assumes "ordered h" "treeish h r" "reach h r n" "Children (store h n) = [c]"
  shows "\<not> reach (mergeChild h n c) r c"
proof
  assume "reach (mergeChild h n c) r c"
  then show False
  proof (cases rule: reach.cases)
    case reach_refl
    have "r \<le> n" using reach_ge[OF assms(3,1)] .
    moreover have "n < c" using assms(1,4) by (auto simp: ordered_def)
    ultimately show False using reach_refl by simp
  next
    case (reach_step y)
    have ry: "reach h r y" using reach_mergeChild_old[OF reach_step(1) assms(4)] .
    show False
    proof (cases "y = n")
      case True
      then have "c \<in> set (Children (store h c))" using reach_step(2) by simp
      then show False using assms(1) by (auto simp: ordered_def)
    next
      case False
      then have "c \<in> set (Children (store h y))" using reach_step(2) by simp
      then have "Parent (store h c) = Some y" using assms(2) ry by (auto simp: treeish_def)
      moreover have "Parent (store h c) = Some n" using assms(2,3,4) by (auto simp: treeish_def)
      ultimately show False using False by simp
    qed
  qed
qed

lemma mergeChild_treeish:
  assumes "ordered h" "treeish h r" "reach h r n" "Children (store h n) = [c]"
  shows "treeish (mergeChild h n c) r"
  unfolding treeish_def
proof (intro allI impI)
  fix a x
  assume ra: "reach (mergeChild h n c) r a" and x: "x \<in> set (Children (store (mergeChild h n c) a))"
  have ra0: "reach h r a" using reach_mergeChild_old[OF ra assms(4)] .
  show "Parent (store (mergeChild h n c) x) = Some a"
  proof (cases "a = n")
    case True
    then show ?thesis using x by simp
  next
    case False
    then have xa: "x \<in> set (Children (store h a))" using x by simp
    then have pa: "Parent (store h x) = Some a" using assms(2) ra0 by (auto simp: treeish_def)
    show ?thesis
    proof (cases "x \<in> set (Children (store h c))")
      case True
      have "reach h r c" using assms(3,4) by (auto intro: reach.reach_step)
      then have "Parent (store h x) = Some c" using assms(2) True by (auto simp: treeish_def)
      then have "a = c" using pa by simp
      then show ?thesis using absorbed_unreachable[OF assms] ra by simp
    next
      case False
      then show ?thesis using pa by simp
    qed
  qed
qed

lemma findLoop_total: "ordered h \<Longrightarrow> \<exists>r. findLoop h t stack = Some r"
proof (induction "sum_list (map (wt h) stack)" arbitrary: stack rule: less_induct)
  case less
  show ?case
  proof (cases "stack = []")
    case True
    then show ?thesis by (subst findLoop.simps) simp
  next
    case False
    then have st: "stack = butlast stack @ [last stack]" by simp
    have "sum_list (map (wt h) stack) = sum_list (map (wt h) (butlast stack)) + wt h (last stack)"
      by (subst st) simp
    then have "sum_list (map (wt h) (butlast stack @ Children (store h (last stack))))
               < sum_list (map (wt h) stack)"
      by (simp add: wt_ordered[OF less.prems, of "last stack"])
    from less.hyps[OF this less.prems] show ?thesis using False
      by (subst findLoop.simps) (auto simp: Let_def)
  qed
qed

lemma findLoop_sound:
  assumes "findLoop h0 t0 stack0 = Some r0"
  shows "case r0 of
           None \<Rightarrow> \<forall>s \<in> set stack0. \<forall>a. reach h0 s a \<longrightarrow> Path (store h0 a) \<noteq> t0
         | Some a \<Rightarrow> Path (store h0 a) = t0 \<and> (\<exists>s \<in> set stack0. reach h0 s a)"
proof (rule findLoop.raw_induct[where P = "\<lambda>h t stack r. case r of
           None \<Rightarrow> \<forall>s \<in> set stack. \<forall>a. reach h s a \<longrightarrow> Path (store h a) \<noteq> t
         | Some a \<Rightarrow> Path (store h a) = t \<and> (\<exists>s \<in> set stack. reach h s a)", OF _ assms])
  fix fL :: "heap \<Rightarrow> string \<Rightarrow> ref list \<Rightarrow> ref option option" and h t stack r
  assume IH: "\<And>h t stack r. fL h t stack = Some r \<Longrightarrow> (case r of
           None \<Rightarrow> \<forall>s \<in> set stack. \<forall>a. reach h s a \<longrightarrow> Path (store h a) \<noteq> t
         | Some a \<Rightarrow> Path (store h a) = t \<and> (\<exists>s \<in> set stack. reach h s a))"
  assume body: "(if stack = [] then Some None
      else
        let n = last stack; stack1 = butlast stack
        in if Path (store h n) = t then Some (Some n)
           else fL h t (stack1 @ Children (store h n))) = Some r"
  show "case r of
           None \<Rightarrow> \<forall>s \<in> set stack. \<forall>a. reach h s a \<longrightarrow> Path (store h a) \<noteq> t
         | Some a \<Rightarrow> Path (store h a) = t \<and> (\<exists>s \<in> set stack. reach h s a)"
  proof (cases "stack = []")
    case True
    with body show ?thesis by auto
  next
    case False
    then have st: "stack = butlast stack @ [last stack]" by simp
    then have mem: "set stack = insert (last stack) (set (butlast stack))"
      by (metis Un_insert_right append_Nil2 list.simps(15) set_append)
    show ?thesis
    proof (cases "Path (store h (last stack)) = t")
      case True
      with body False have "r = Some (last stack)" by (simp add: Let_def)
      then show ?thesis using True False by (auto intro!: bexI[of _ "last stack"] reach.reach_refl)
    next
      case neq: False
      with body False have rec: "fL h t (butlast stack @ Children (store h (last stack))) = Some r"
        by (simp add: Let_def)
      show ?thesis
      proof (cases r)
        case None
        have *: "\<forall>s \<in> set (butlast stack @ Children (store h (last stack))). \<forall>a. reach h s a \<longrightarrow> Path (store h a) \<noteq> t"
          using IH[OF rec] None by simp
        have "Path (store h a) \<noteq> t" if "reach h (last stack) a" for a
          using reach_first[OF that] neq * by auto
        then show ?thesis using None * mem by auto
      next
        case (Some a)
        then show ?thesis using IH[OF rec] mem by (auto intro: reach_child)
      qed
    qed
  qed
qed

lemma set_firstOcc [simp]: "set (firstOcc xs) = set xs"
  by (induction xs) auto

lemma distinct_firstOcc [simp]: "distinct (firstOcc xs)"
  by (induction xs) (auto simp: distinct_removeAll)

lemma firstOcc_snoc:
  "firstOcc (xs @ [e]) = (if e \<in> set xs then firstOcc xs else firstOcc xs @ [e])"
  by (induction xs) auto

lemma findChild_Some: "findChild h cs e = Some c \<Longrightarrow> c \<in> set cs \<and> Name (store h c) = e"
  by (induction cs) (auto split: if_splits)

lemma findChild_None: "findChild h cs e = None \<longleftrightarrow> e \<notin> set (map (\<lambda>c. Name (store h c)) cs)"
  by (induction cs) auto

lemma findChild_cong:
  "\<forall>c \<in> set cs. Name (store h' c) = Name (store h c) \<Longrightarrow> findChild h' cs e = findChild h cs e"
  by (induction cs) auto

lemma findChild_append:
  "findChild h (cs @ ds) e = (case findChild h cs e of Some c \<Rightarrow> Some c | None \<Rightarrow> findChild h ds e)"
  by (induction cs) auto

lemma walk_append:
  "walk h a (q @ r) = (case walk h a q of None \<Rightarrow> None | Some b \<Rightarrow> walk h b r)"
  by (induction q arbitrary: a) (auto split: option.splits)

lemma walk_snoc:
  "walk h a (q @ [e]) =
     (case walk h a q of None \<Rightarrow> None | Some b \<Rightarrow> findChild h (Children (store h b)) e)"
  by (simp add: walk_append split: option.splits)

lemma walk_lt: "walk h a q = Some b \<Longrightarrow> ordered h \<Longrightarrow> a < nextRef h \<Longrightarrow> b < nextRef h"
proof (induction q arbitrary: a)
  case Nil
  then show ?case by simp
next
  case (Cons e q)
  then obtain c where c: "findChild h (Children (store h a)) e = Some c" and w: "walk h c q = Some b"
    by (auto split: option.splits)
  have "c < nextRef h" using findChild_Some[OF c] Cons.prems(2) by (auto simp: ordered_def)
  from Cons.IH[OF w Cons.prems(2) this] show ?case .
qed

lemma walk_reach: "walk h a q = Some b \<Longrightarrow> reach h a b"
proof (induction q arbitrary: b rule: rev_induct)
  case Nil
  then show ?case by (simp add: reach.reach_refl)
next
  case (snoc e q)
  then obtain b' where 1: "walk h a q = Some b'" and 2: "findChild h (Children (store h b')) e = Some b"
    by (auto simp: walk_snoc split: option.splits)
  from snoc.IH[OF 1] findChild_Some[OF 2] show ?case by (auto intro: reach.reach_step)
qed

lemma walk_cong:
  assumes "\<And>a. Name (store h' a) = Name (store h a)" "\<And>a. Children (store h' a) = Children (store h a)"
  shows "walk h' a q = walk h a q"
proof (induction q arbitrary: a)
  case Nil
  show ?case by simp
next
  case (Cons e q)
  have "findChild h' (Children (store h a)) e = findChild h (Children (store h a)) e"
    by (rule findChild_cong) (simp add: assms)
  then show ?case using Cons by (simp add: assms split: option.splits)
qed

lemma nexts_snoc_Nil [simp]: "nexts (L @ [[]]) q = nexts L q"
  by (simp add: nexts_def)

lemma strict_prefix_snoc_iff: "strict_prefix q (q0 @ [e]) \<longleftrightarrow> prefix q q0"
  by (metis prefix_order.less_le_not_le prefix_snoc strict_prefix_def snoc_eq_iff_butlast prefixI prefix_order.dual_order.refl same_prefix_nil)

lemma nexts_extend_other:
  assumes "q \<noteq> q0"
  shows "nexts (L0 @ [q0 @ [e]]) q = nexts (L0 @ [q0]) q"
proof (cases "strict_prefix q q0")
  case True
  then have "(q0 @ [e]) ! length q = q0 ! length q"
    by (metis nth_append prefix_length_less)
  moreover have "prefix q q0" using True by (simp add: strict_prefix_def)
  then have "strict_prefix q (q0 @ [e])" by (simp only: strict_prefix_snoc_iff)
  ultimately show ?thesis using True by (simp add: nexts_def)
next
  case False
  then have "\<not> prefix q q0" using assms by (simp add: strict_prefix_def)
  then have "\<not> strict_prefix q (q0 @ [e])" by (simp only: strict_prefix_snoc_iff not_False_eq_True)
  then show ?thesis using False by (simp add: nexts_def)
qed

lemma nexts_extend_self:
  "nexts (L0 @ [q0 @ [e]]) q0 =
     (if e \<in> set (nexts (L0 @ [q0]) q0) then nexts (L0 @ [q0]) q0 else nexts (L0 @ [q0]) q0 @ [e])"
  by (simp add: nexts_def firstOcc_snoc strict_prefix_snoc_iff)

lemma nexts_mem:
  "e \<in> set (nexts L q) \<longleftrightarrow> (\<exists>s \<in> set L. prefix (q @ [e]) s)"
proof
  assume "e \<in> set (nexts L q)"
  then obtain s where s: "s \<in> set L" "strict_prefix q s" "s ! length q = e" by (auto simp: nexts_def)
  then obtain r where r: "s = q @ r" "r \<noteq> []" by (auto simp: strict_prefix_def prefix_def)
  then have "s = (q @ [e]) @ tl r" using s(3) by (cases r) auto
  then show "\<exists>s \<in> set L. prefix (q @ [e]) s" using s(1) by (metis prefixI)
next
  assume "\<exists>s \<in> set L. prefix (q @ [e]) s"
  then obtain s r where s: "s \<in> set L" "s = (q @ [e]) @ r" by (auto simp: prefix_def)
  then have "strict_prefix q s" "s ! length q = e" by (auto simp: strict_prefix_def)
  then show "e \<in> set (nexts L q)" using s(1) by (force simp: nexts_def)
qed

lemma buildInvD:
  assumes "buildInv L h"
  shows "ordered h" and "0 < nextRef h"
    and "\<And>q a. walk h 0 q = Some a \<Longrightarrow> names h a = nexts L q"
    and "\<And>q q' a. walk h 0 q = Some a \<Longrightarrow> walk h 0 q' = Some a \<Longrightarrow> q = q'"
    and "\<And>a. a < nextRef h \<Longrightarrow> \<exists>q. walk h 0 q = Some a"
    and "\<And>a c. c \<in> set (Children (store h a)) \<Longrightarrow> Parent (store h c) = Some a"
    and "Parent (store h 0) = None"
    and "\<And>q a. walk h 0 q = Some a \<Longrightarrow> Path (store h a) = pathOf q"
    and "\<And>a. a < nextRef h \<Longrightarrow> IsDir (store h a)"
    and "Name (store h 0) = ''ROOT''"
    and "pord h"
proof -
  note a = assms[unfolded buildInv_def]
  note c1 = a[THEN conjunct1] and r1 = a[THEN conjunct2]
  note c2 = r1[THEN conjunct1] and r2 = r1[THEN conjunct2]
  note c3 = r2[THEN conjunct1] and r3 = r2[THEN conjunct2]
  note c4 = r3[THEN conjunct1] and r4 = r3[THEN conjunct2]
  note c5 = r4[THEN conjunct1] and r5 = r4[THEN conjunct2]
  note c6 = r5[THEN conjunct1] and r6 = r5[THEN conjunct2]
  note c7 = r6[THEN conjunct1] and r7 = r6[THEN conjunct2]
  note c8 = r7[THEN conjunct1] and r8 = r7[THEN conjunct2]
  note c9 = r8[THEN conjunct1] and r9 = r8[THEN conjunct2]
  note c10 = r9[THEN conjunct1] and c11 = r9[THEN conjunct2]
  show "ordered h" by (rule c1)
  show "0 < nextRef h" by (rule c2)
  show "\<And>q a. walk h 0 q = Some a \<Longrightarrow> names h a = nexts L q" using c3 by blast
  show "\<And>q q' a. walk h 0 q = Some a \<Longrightarrow> walk h 0 q' = Some a \<Longrightarrow> q = q'" using c4 by blast
  show "\<And>a. a < nextRef h \<Longrightarrow> \<exists>q. walk h 0 q = Some a" using c5 by blast
  show "\<And>a c. c \<in> set (Children (store h a)) \<Longrightarrow> Parent (store h c) = Some a" using c6 by blast
  show "Parent (store h 0) = None" by (rule c7)
  show "\<And>q a. walk h 0 q = Some a \<Longrightarrow> Path (store h a) = pathOf q" using c8 by blast
  show "\<And>a. a < nextRef h \<Longrightarrow> IsDir (store h a)" using c9 by blast
  show "Name (store h 0) = ''ROOT''" by (rule c10)
  show "pord h" by (rule c11)
qed

lemma walk_prefix_Some: "walk h a (q @ r) = Some b \<Longrightarrow> \<exists>b'. walk h a q = Some b'"
  by (auto simp: walk_append split: option.splits)

lemma grown_findChild_old:
  assumes "grown h h' a0 e" "ordered h" "b \<noteq> a0"
  shows "findChild h' (Children (store h' b)) x = findChild h (Children (store h b)) x"
proof (cases "b = nextRef h")
  case True
  have "Children (store h b) = []"
    using assms(2) True by (cases "Children (store h b)") (auto simp: ordered_def dest!: spec[where x=b])
  then show ?thesis using assms(1) True by (simp add: grown_def)
next
  case False
  have "\<forall>c \<in> set (Children (store h b)). c \<noteq> nextRef h" using assms(2) by (auto simp: ordered_def)
  then have "findChild h' (Children (store h b)) x = findChild h (Children (store h b)) x"
    using assms(1) by (intro findChild_cong) (auto simp: grown_def)
  then show ?thesis using assms(1,3) False by (simp add: grown_def)
qed

lemma grown_findChild_at:
  assumes "grown h h' a0 e" "ordered h"
  shows "findChild h' (Children (store h' a0)) x =
           (case findChild h (Children (store h a0)) x of
              Some d \<Rightarrow> Some d | None \<Rightarrow> if x = e then Some (nextRef h) else None)"
proof -
  have "\<forall>c \<in> set (Children (store h a0)). c \<noteq> nextRef h" using assms(2) by (auto simp: ordered_def)
  then have "findChild h' (Children (store h a0)) x = findChild h (Children (store h a0)) x"
    using assms(1) by (intro findChild_cong) (auto simp: grown_def)
  then show ?thesis using assms(1) by (auto simp: grown_def findChild_append split: option.splits)
qed

lemma grown_walk:
  assumes "growStep L0 q0 h a0 e h'"
  shows "walk h' 0 q = (if q = q0 @ [e] then Some (nextRef h)
                        else if strict_prefix (q0 @ [e]) q then None else walk h 0 q)"
proof (induction q rule: rev_induct)
  case Nil
  show ?case by simp
next
  case (snoc x q)
  have inv: "buildInv (L0 @ [q0]) h" and w0: "walk h 0 q0 = Some a0"
    and fresh: "e \<notin> set (names h a0)" and g: "grown h h' a0 e"
    using assms by (auto simp: growStep_def)
  have o: "ordered h" and pos: "0 < nextRef h" using buildInvD(1,2)[OF inv] by auto
  have inj: "\<And>q q' a. walk h 0 q = Some a \<Longrightarrow> walk h 0 q' = Some a \<Longrightarrow> q = q'"
    using buildInvD(4)[OF inv] by blast
  have none0: "findChild h (Children (store h a0)) e = None"
    using fresh by (simp add: findChild_None names_def)
  let ?R = "\<lambda>q. if q = q0 @ [e] then Some (nextRef h)
                 else if strict_prefix (q0 @ [e]) q then None else walk h 0 q"
  have ws: "walk h' 0 (q @ [x]) =
      (case walk h' 0 q of None \<Rightarrow> None | Some b \<Rightarrow> findChild h' (Children (store h' b)) x)"
    by (rule walk_snoc)
  have wsh: "walk h 0 (q @ [x]) =
      (case walk h 0 q of None \<Rightarrow> None | Some b \<Rightarrow> findChild h (Children (store h b)) x)"
    by (rule walk_snoc)
  have IH: "walk h' 0 q = ?R q" by (rule snoc.IH)
  show ?case
  proof (cases "q = q0 @ [e]")
    case True
    then have "walk h' 0 q = Some (nextRef h)" using IH by simp
    moreover have "Children (store h' (nextRef h)) = []" using g by (simp add: grown_def)
    ultimately have L: "walk h' 0 (q @ [x]) = None" by (simp add: ws)
    have "strict_prefix (q0 @ [e]) (q @ [x])" using True by (simp add: strict_prefix_def)
    moreover have "q @ [x] \<noteq> q0 @ [e]" using True by simp
    ultimately have R: "?R (q @ [x]) = None" by simp
    show ?thesis by (simp only: L R)
  next
    case F1: False
    show ?thesis
    proof (cases "strict_prefix (q0 @ [e]) q")
      case True
      then have "walk h' 0 q = None" using IH F1 by simp
      then have L: "walk h' 0 (q @ [x]) = None" by (simp add: ws)
      have "prefix (q0 @ [e]) q" using True by (simp add: strict_prefix_def)
      then have "strict_prefix (q0 @ [e]) (q @ [x])" by (simp only: strict_prefix_snoc_iff)
      moreover have "q @ [x] \<noteq> q0 @ [e]" using True by (auto simp: strict_prefix_def)
      ultimately have R: "?R (q @ [x]) = None" by simp
      show ?thesis by (simp only: L R)
    next
      case F2: False
      then have eq: "walk h' 0 q = walk h 0 q" using IH F1 by simp
      have np: "\<not> prefix (q0 @ [e]) q" using F1 F2 by (auto simp: strict_prefix_def)
      have nsp: "\<not> strict_prefix (q0 @ [e]) (q @ [x])"
        using np by (simp only: strict_prefix_snoc_iff not_False_eq_True)
      show ?thesis
      proof (cases "walk h 0 q")
        case None
        then have "q \<noteq> q0" using w0 by auto
        then have ne: "q @ [x] \<noteq> q0 @ [e]" by simp
        have L: "walk h' 0 (q @ [x]) = None" using None eq by (simp add: ws)
        have "walk h 0 (q @ [x]) = None" using None by (simp add: wsh)
        then have R: "?R (q @ [x]) = None" by (simp only: ne nsp if_False)
        show ?thesis by (simp only: L R)
      next
        case (Some b)
        show ?thesis
        proof (cases "b = a0")
          case True
          then have qq: "q = q0" using inj[OF Some] w0 by simp
          have L: "walk h' 0 (q @ [x]) =
                (case findChild h (Children (store h a0)) x of
                   Some d \<Rightarrow> Some d | None \<Rightarrow> if x = e then Some (nextRef h) else None)"
            using Some eq True by (simp add: ws grown_findChild_at[OF g o])
          have W: "walk h 0 (q @ [x]) = findChild h (Children (store h a0)) x"
            using Some True by (simp add: wsh)
          show ?thesis
          proof (cases "x = e")
            case True
            then have "?R (q @ [x]) = Some (nextRef h)" using qq by simp
            moreover have "walk h' 0 (q @ [x]) = Some (nextRef h)" using L True none0 by simp
            ultimately show ?thesis by (simp only:)
          next
            case False
            then have ne: "q @ [x] \<noteq> q0 @ [e]" by simp
            have "walk h' 0 (q @ [x]) = walk h 0 (q @ [x])"
              using L W False by (simp split: option.splits)
            moreover have "?R (q @ [x]) = walk h 0 (q @ [x])" by (simp only: ne nsp if_False)
            ultimately show ?thesis by (simp only:)
          qed
        next
          case False
          then have "q \<noteq> q0" using Some w0 by auto
          then have ne: "q @ [x] \<noteq> q0 @ [e]" by simp
          have "walk h' 0 (q @ [x]) = walk h 0 (q @ [x])"
            using Some eq by (simp add: ws wsh grown_findChild_old[OF g o False])
          moreover have "?R (q @ [x]) = walk h 0 (q @ [x])" by (simp only: ne nsp if_False)
          ultimately show ?thesis by (simp only:)
        qed
      qed
    qed
  qed
qed

declare Join.simps [simp del]

lemma ordered_no_children: "ordered h \<Longrightarrow> nextRef h \<le> a \<Longrightarrow> Children (store h a) = []"
  by (cases "Children (store h a)") (auto simp: ordered_def dest!: spec[where x=a])

lemma grown_ordered: "grown h h' a0 e \<Longrightarrow> ordered h \<Longrightarrow> ordered h'"
  unfolding ordered_def grown_def
  apply (intro allI ballI)
  subgoal for a c
    apply (cases "a = nextRef h")
     apply simp
    apply (cases "a = a0")
     apply (auto simp: less_Suc_eq)
    done
  done

lemma grown_names:
  assumes "grown h h' a0 e" "ordered h"
  shows "names h' a = (if a = nextRef h then [] else if a = a0 then names h a0 @ [e] else names h a)"
proof -
  have old: "\<forall>c \<in> set (Children (store h a)). Name (store h' c) = Name (store h c)" for a
  proof
    fix c assume "c \<in> set (Children (store h a))"
    then have "c < nextRef h" using assms(2) by (auto simp: ordered_def)
    then show "Name (store h' c) = Name (store h c)" using assms(1) by (simp add: grown_def)
  qed
  show ?thesis
  proof (cases "a = nextRef h")
    case True
    then show ?thesis using assms(1) by (simp add: names_def grown_def)
  next
    case False
    show ?thesis
    proof (cases "a = a0")
      case True
      then show ?thesis using assms(1) False old[of a0] by (simp add: names_def grown_def)
    next
      case F: False
      then show ?thesis using assms(1) False old[of a] by (simp add: names_def grown_def)
    qed
  qed
qed

lemma pathOf_snoc: "pathOf (q @ [e]) = Join [pathOf q, e]"
  by (simp add: pathOf_def del: Join.simps)

lemma pathOf_Nil: "pathOf [] = ''.''"
  by (simp add: pathOf_def)

lemma grown_buildInv:
  assumes gs: "growStep L0 q0 h a0 e h'"
  shows "buildInv (L0 @ [q0 @ [e]]) h'"
proof -
  have inv: "buildInv (L0 @ [q0]) h" and w0: "walk h 0 q0 = Some a0"
    and fresh: "e \<notin> set (names h a0)" and g: "grown h h' a0 e"
    using gs by (auto simp: growStep_def)
  have o: "ordered h" and pos: "0 < nextRef h" using buildInvD(1,2)[OF inv] by auto
  have nm: "\<And>q a. walk h 0 q = Some a \<Longrightarrow> names h a = nexts (L0 @ [q0]) q"
    using buildInvD(3)[OF inv] by blast
  have inj: "\<And>q q' a. walk h 0 q = Some a \<Longrightarrow> walk h 0 q' = Some a \<Longrightarrow> q = q'"
    using buildInvD(4)[OF inv] by blast
  have onto: "\<And>a. a < nextRef h \<Longrightarrow> \<exists>q. walk h 0 q = Some a"
    using buildInvD(5)[OF inv] by blast
  have par: "\<And>a c. c \<in> set (Children (store h a)) \<Longrightarrow> Parent (store h c) = Some a"
    using buildInvD(6)[OF inv] by blast
  have pth: "\<And>q a. walk h 0 q = Some a \<Longrightarrow> Path (store h a) = pathOf q"
    using buildInvD(8)[OF inv] by blast
  have dir: "\<And>a. a < nextRef h \<Longrightarrow> IsDir (store h a)"
    using buildInvD(9)[OF inv] by blast
  have lt: "\<And>q a. walk h 0 q = Some a \<Longrightarrow> a < nextRef h"
    using walk_lt[OF _ o pos] by blast
  have a0lt: "a0 < nextRef h" using lt[OF w0] .
  note W = grown_walk[OF gs]
  have wnew: "walk h' 0 (q0 @ [e]) = Some (nextRef h)" by (simp add: W)
  have wold: "walk h 0 q = Some a" if "walk h' 0 q = Some a" "a \<noteq> nextRef h" for q a
    using that by (simp add: W split: if_splits)
  have wnew_only: "q = q0 @ [e]" if "walk h' 0 q = Some (nextRef h)" for q
    using that lt[of q "nextRef h"] by (simp add: W split: if_splits)
  have c1: "ordered h'" by (rule grown_ordered[OF g o])
  have c2: "0 < nextRef h'" using g by (simp add: grown_def)
  have c3: "names h' a = nexts (L0 @ [q0 @ [e]]) q" if w: "walk h' 0 q = Some a" for q a
  proof (cases "a = nextRef h")
    case True
    then have q: "q = q0 @ [e]" using wnew_only w by simp
    have "nexts (L0 @ [q0 @ [e]]) (q0 @ [e]) = []"
    proof (rule ccontr)
      assume "nexts (L0 @ [q0 @ [e]]) (q0 @ [e]) \<noteq> []"
      then obtain y where "y \<in> set (nexts (L0 @ [q0 @ [e]]) (q0 @ [e]))"
        by (cases "nexts (L0 @ [q0 @ [e]]) (q0 @ [e])") auto
      then obtain s where s: "s \<in> set (L0 @ [q0 @ [e]])" "prefix ((q0 @ [e]) @ [y]) s"
        unfolding nexts_mem by blast
      then have "s \<noteq> q0 @ [e]" by (auto simp: prefix_def)
      then have "s \<in> set (L0 @ [q0])" using s(1) by auto
      moreover have "prefix (q0 @ [e]) s" using s(2) by (auto simp: prefix_def)
      ultimately have "e \<in> set (nexts (L0 @ [q0]) q0)" unfolding nexts_mem by blast
      then show False using fresh nm[OF w0] by simp
    qed
    then show ?thesis using True q by (simp add: grown_names[OF g o])
  next
    case False
    have wq: "walk h 0 q = Some a" using wold[OF w False] .
    show ?thesis
    proof (cases "a = a0")
      case True
      then have q: "q = q0" using inj[OF wq] w0 by simp
      have "nexts (L0 @ [q0 @ [e]]) q0 = nexts (L0 @ [q0]) q0 @ [e]"
        using fresh nm[OF w0] by (simp add: nexts_extend_self)
      then show ?thesis using True False q nm[OF w0] by (simp add: grown_names[OF g o])
    next
      case F: False
      then have "q \<noteq> q0" using wq w0 by auto
      then show ?thesis using F False nm[OF wq] by (simp add: grown_names[OF g o] nexts_extend_other)
    qed
  qed
  have c4: "q = q'" if "walk h' 0 q = Some a" "walk h' 0 q' = Some a" for q q' a
  proof (cases "a = nextRef h")
    case True
    then have "q = q0 @ [e]" "q' = q0 @ [e]" using that wnew_only by blast+
    then show ?thesis by simp
  next
    case False
    then show ?thesis using that wold inj by blast
  qed
  have c5: "\<exists>q. walk h' 0 q = Some a" if "a < nextRef h'" for a
  proof (cases "a = nextRef h")
    case True
    then show ?thesis using wnew by blast
  next
    case False
    then have "a < nextRef h" using that g by (simp add: grown_def)
    then obtain q where q: "walk h 0 q = Some a" using onto by blast
    have n0: "walk h 0 (q0 @ [e]) = None"
      using w0 fresh by (simp add: walk_snoc findChild_None names_def)
    have "q \<noteq> q0 @ [e]" using q n0 by auto
    moreover have "\<not> strict_prefix (q0 @ [e]) q"
    proof
      assume "strict_prefix (q0 @ [e]) q"
      then obtain r where "q = (q0 @ [e]) @ r" by (auto simp: strict_prefix_def prefix_def)
      then show False using walk_prefix_Some[of h 0 "q0 @ [e]" r a] q n0 by simp
    qed
    ultimately have "walk h' 0 q = Some a" using q by (simp add: W)
    then show ?thesis by blast
  qed
  have c6: "Parent (store h' c) = Some a" if "c \<in> set (Children (store h' a))" for a c
  proof (cases "a = nextRef h")
    case True
    then show ?thesis using that g by (simp add: grown_def)
  next
    case False
    show ?thesis
    proof (cases "c = nextRef h")
      case True
      have "a = a0"
      proof (rule ccontr)
        assume "a \<noteq> a0"
        then have "c \<in> set (Children (store h a))" using that g False by (simp add: grown_def)
        then show False using o True by (auto simp: ordered_def)
      qed
      then show ?thesis using True g by (simp add: grown_def)
    next
      case F: False
      then have "c \<in> set (Children (store h a))" using that g False
        by (cases "a = a0") (auto simp: grown_def)
      then show ?thesis using par F g by (simp add: grown_def)
    qed
  qed
  have c7: "Parent (store h' 0) = None"
    using buildInvD(7)[OF inv] g pos by (auto simp: grown_def)
  have c8: "Path (store h' a) = pathOf q" if w: "walk h' 0 q = Some a" for q a
  proof (cases "a = nextRef h")
    case True
    then have q: "q = q0 @ [e]" using wnew_only w by simp
    show ?thesis using True q g pth[OF w0] by (simp add: grown_def pathOf_snoc del: Join.simps)
  next
    case False
    then show ?thesis using pth[OF wold[OF w False]] g by (simp add: grown_def)
  qed
  have c9: "IsDir (store h' a)" if "a < nextRef h'" for a
    using that g dir[of a] by (cases "a = nextRef h") (auto simp: grown_def)
  have c10: "Name (store h' 0) = ''ROOT''"
    using buildInvD(10)[OF inv] g pos by (auto simp: grown_def)
  have "pord h" by (rule buildInvD(11)[OF inv])
  have c11: "pord h'"
    unfolding pord_def
  proof (intro allI impI)
    fix a p assume P: "Parent (store h' a) = Some p"
    show "p < a"
    proof (cases "a = nextRef h")
      case True
      then have "p = a0" using P g by (simp add: grown_def)
      then show ?thesis using a0lt True by simp
    next
      case False
      then have "Parent (store h a) = Some p" using P g by (simp add: grown_def)
      then show ?thesis using \<open>pord h\<close> by (simp add: pord_def)
    qed
  qed
  show ?thesis
    unfolding buildInv_def using c1 c2 c3 c4 c5 c6 c7 c8 c9 c10 c11 by blast
qed

lemma sameShape_walk: "sameShape h h' \<Longrightarrow> walk h' a q = walk h a q"
  by (rule walk_cong) (auto simp: sameShape_def)

lemma sameShape_buildInv: "sameShape h h' \<Longrightarrow> buildInv L h \<Longrightarrow> buildInv L h'"
  unfolding buildInv_def
  apply (simp add: sameShape_walk names_def)
  apply (simp add: sameShape_def ordered_def pord_def)
  done

lemma buildInv_nexts_cong: "(\<And>q. nexts L' q = nexts L q) \<Longrightarrow> buildInv L h \<Longrightarrow> buildInv L' h"
  by (simp add: buildInv_def)

lemma stepPart_None:
  assumes "findChild h (Children (store h a0)) e = None" "a0 < nextRef h"
    and "stepPart hist p nl h a0 e = (h', c)"
  shows "c = nextRef h \<and> grown h h' a0 e"
  using assms by (auto simp: stepPart_def Let_def alloc_def grown_def zeroNode_def upd_def split: if_splits)

lemma stepPart_Some:
  assumes "findChild h (Children (store h a0)) e = Some d"
    and "stepPart hist p nl h a0 e = (h', c)"
  shows "c = d \<and> sameShape h h'"
  using assms by (auto simp: stepPart_def Let_def sameShape_def)

lemma insertParts_buildInv:
  assumes "buildInv (L0 @ [q0]) h" "walk h 0 q0 = Some a0"
    and "insertParts hist p rest h a0 = (h', cur)"
  shows "buildInv (L0 @ [q0 @ rest]) h' \<and> walk h' 0 (q0 @ rest) = Some cur"
  using assms
proof (induction rest arbitrary: q0 h a0)
  case Nil
  then show ?case by simp
next
  case (Cons e rest)
  obtain h1 c where sp: "stepPart hist p (rest \<noteq> []) h a0 e = (h1, c)"
    by (cases "stepPart hist p (rest \<noteq> []) h a0 e") auto
  with Cons.prems(3) have ip: "insertParts hist p rest h1 c = (h', cur)" by simp
  have o: "ordered h" and pos: "0 < nextRef h" using buildInvD(1,2)[OF Cons.prems(1)] by auto
  have a0lt: "a0 < nextRef h" using walk_lt[OF Cons.prems(2) o pos] .
  have step: "buildInv (L0 @ [q0 @ [e]]) h1 \<and> walk h1 0 (q0 @ [e]) = Some c"
  proof (cases "findChild h (Children (store h a0)) e")
    case None
    from stepPart_None[OF None a0lt sp] have c: "c = nextRef h" and g: "grown h h1 a0 e" by auto
    have gs: "growStep L0 q0 h a0 e h1"
      using Cons.prems(1,2) None g by (simp add: growStep_def findChild_None names_def)
    show ?thesis using grown_buildInv[OF gs] grown_walk[OF gs, of "q0 @ [e]"] c by simp
  next
    case (Some d)
    from stepPart_Some[OF Some sp] have c: "c = d" and ss: "sameShape h h1" by auto
    have "names h a0 = nexts (L0 @ [q0]) q0"
      by (rule buildInvD(3)[OF Cons.prems(1,2)])
    moreover have "e \<in> set (names h a0)" using findChild_Some[OF Some] by (auto simp: names_def)
    ultimately have "e \<in> set (nexts (L0 @ [q0]) q0)" by simp
    then have "nexts (L0 @ [q0 @ [e]]) q = nexts (L0 @ [q0]) q" for q
      by (cases "q = q0") (simp_all add: nexts_extend_self nexts_extend_other)
    then have "buildInv (L0 @ [q0 @ [e]]) h"
      using Cons.prems(1) by (rule buildInv_nexts_cong)
    then have "buildInv (L0 @ [q0 @ [e]]) h1" by (rule sameShape_buildInv[OF ss])
    moreover have "walk h 0 (q0 @ [e]) = Some c"
      using Cons.prems(2) Some c by (simp add: walk_snoc)
    then have "walk h1 0 (q0 @ [e]) = Some c" by (simp only: sameShape_walk[OF ss])
    ultimately show ?thesis by simp
  qed
  from Cons.IH[OF _ _ ip, of "q0 @ [e]"] step show ?case by simp
qed

lemma upd_history_sameShape: "sameShape h (upd h a (\<lambda>n. n\<lparr>IsHistory := True\<rparr>))"
  by (simp add: sameShape_def)

lemma insertPath_buildInv:
  assumes "buildInv L0 h"
  shows "buildInv (L0 @ [Split p]) (insertPath hist 0 h p)"
proof -
  obtain h1 cur where ip: "insertParts hist p (Split p) h 0 = (h1, cur)"
    by (cases "insertParts hist p (Split p) h 0") auto
  have "buildInv (L0 @ [[]]) h" using assms by (rule buildInv_nexts_cong[rotated]) simp
  from insertParts_buildInv[OF this _ ip] have "buildInv (L0 @ [Split p]) h1" by simp
  then show ?thesis using ip
    by (auto simp: insertPath_def intro: sameShape_buildInv[OF upd_history_sameShape])
qed

lemma foldl_insertPath_buildInv:
  "buildInv L0 h \<Longrightarrow> buildInv (L0 @ map Split ps) (foldl (insertPath hist 0) h ps)"
proof (induction ps arbitrary: L0 h)
  case Nil
  then show ?case by simp
next
  case (Cons p ps)
  from Cons.IH[OF insertPath_buildInv[OF Cons.prems], of p hist] show ?case by simp
qed

lemma walk_leaf: "Children (store h a) = [] \<Longrightarrow> walk h a q = Some b \<Longrightarrow> q = [] \<and> b = a"
  by (cases q) auto

lemma buildInv_init:
  "buildInv [] (fst (alloc emptyHeap (zeroNode\<lparr>Name := ''ROOT'', IsDir := True, Path := ''.''\<rparr>)))"
proof -
  define h where "h = fst (alloc emptyHeap (zeroNode\<lparr>Name := ''ROOT'', IsDir := True, Path := ''.''\<rparr>))"
  have ch: "Children (store h a) = []" for a
    by (simp add: h_def alloc_def emptyHeap_def zeroNode_def)
  have nr: "nextRef h = 1" by (simp add: h_def alloc_def emptyHeap_def)
  have r: "Parent (store h 0) = None" "Path (store h 0) = ''.''" "IsDir (store h 0)"
    "Name (store h 0) = ''ROOT''"
    by (simp_all add: h_def alloc_def emptyHeap_def zeroNode_def)
  have w: "q = [] \<and> b = 0" if "walk h 0 q = Some b" for q b
    using walk_leaf[OF ch that] .
  have n: "nexts [] q = []" for q by (simp add: nexts_def)
  have c1: "ordered h" by (simp add: ordered_def ch)
  have c3: "\<forall>q a. walk h 0 q = Some a \<longrightarrow> names h a = nexts [] q"
    by (simp add: names_def ch n)
  have c4: "\<forall>q q' a. walk h 0 q = Some a \<longrightarrow> walk h 0 q' = Some a \<longrightarrow> q = q'"
    using w by blast
  have "walk h 0 [] = Some 0" by simp
  then have c5: "\<forall>a < nextRef h. \<exists>q. walk h 0 q = Some a" unfolding nr by (metis less_one)
  have c6: "\<forall>a c. c \<in> set (Children (store h a)) \<longrightarrow> Parent (store h c) = Some a"
    by (simp add: ch)
  have c8: "\<forall>q a. walk h 0 q = Some a \<longrightarrow> Path (store h a) = pathOf q"
    using r(2) by (auto dest!: w simp: pathOf_Nil)
  have c9: "\<forall>a < nextRef h. IsDir (store h a)" unfolding nr using r(3) by simp
  have c11: "pord h" by (simp add: pord_def h_def alloc_def emptyHeap_def zeroNode_def)
  have "buildInv [] h"
    unfolding buildInv_def using c1 nr c3 c4 c5 c6 r(1) c8 c9 r(4) c11 by simp
  then show ?thesis by (simp add: h_def)
qed

lemma buildTree_buildInv:
  "buildInv (map Split paths) (fst (buildTree paths hist)) \<and> snd (buildTree paths hist) = 0"
  using foldl_insertPath_buildInv[OF buildInv_init, of paths hist]
  by (simp add: buildTree_def alloc_def emptyHeap_def Let_def)

lemma buildInv_walk_exists:
  assumes "buildInv L h" "s \<in> set L" "prefix q s"
  shows "\<exists>a. walk h 0 q = Some a"
  using assms(3)
proof (induction q rule: rev_induct)
  case Nil
  show ?case by simp
next
  case (snoc e q)
  have "prefix q s" using snoc.prems by (metis append_prefixD)
  then obtain a where a: "walk h 0 q = Some a" using snoc.IH by blast
  have "names h a = nexts L q" by (rule buildInvD(3)[OF assms(1) a])
  moreover have "e \<in> set (nexts L q)" unfolding nexts_mem using assms(2) snoc.prems by blast
  ultimately have "findChild h (Children (store h a)) e \<noteq> None"
    by (simp add: findChild_None names_def)
  then show ?case using a by (auto simp: walk_snoc)
qed

lemma joinSep_append:
  "a \<noteq> [] \<Longrightarrow> b \<noteq> [] \<Longrightarrow> joinSep (a @ b) = joinSep a @ CHR ''/'' # joinSep b"
  by (induction a rule: joinSep.induct) (auto, (cases b; simp)+)

lemma Split_strict_prefix:
  assumes "strict_prefix (Split p) (Split p')"
  shows "strict_prefix p p'"
proof -
  from assms obtain r where r: "Split p' = Split p @ r" "r \<noteq> []"
    by (auto simp: strict_prefix_def prefix_def)
  have "p' = joinSep (Split p @ r)" using joinSep_Split[of p'] r(1) by simp
  also have "\<dots> = p @ CHR ''/'' # joinSep r"
    using joinSep_append[OF Split_nonempty r(2)] by (simp add: joinSep_Split)
  finally show ?thesis by (simp add: strict_prefix_def)
qed

text \<open>The node of a clean input path that no other input path extends.\<close>

lemma build_leaf:
  assumes "p \<in> set paths" "cleanPath p" "\<forall>q \<in> set paths. \<not> strict_prefix p q"
  shows "\<exists>a. reach (fst (buildTree paths hist)) 0 a
            \<and> Children (store (fst (buildTree paths hist)) a) = []
            \<and> Path (store (fst (buildTree paths hist)) a) = p"
proof -
  let ?h = "fst (buildTree paths hist)"
  let ?L = "map Split paths"
  have inv: "buildInv ?L ?h" using buildTree_buildInv by blast
  have "Split p \<in> set ?L" using assms(1) by simp
  from buildInv_walk_exists[OF inv this prefix_order.order_refl]
  obtain a where a: "walk ?h 0 (Split p) = Some a" by blast
  have "Path (store ?h a) = pathOf (Split p)" by (rule buildInvD(8)[OF inv a])
  also have "\<dots> = p"
    using assms(2) by (simp add: pathOf_clean[OF Split_nonempty] cleanPath_def joinSep_Split)
  finally have pa: "Path (store ?h a) = p" .
  have "nexts ?L (Split p) = []"
  proof (rule ccontr)
    assume "nexts ?L (Split p) \<noteq> []"
    then obtain e where "e \<in> set (nexts ?L (Split p))" by (cases "nexts ?L (Split p)") auto
    then obtain s where "s \<in> set ?L" "prefix (Split p @ [e]) s" unfolding nexts_mem by blast
    then obtain p' where p': "p' \<in> set paths" "prefix (Split p @ [e]) (Split p')" by auto
    then have "strict_prefix (Split p) (Split p')" by (auto simp: strict_prefix_def prefix_def)
    then show False using Split_strict_prefix assms(3) p'(1) by blast
  qed
  moreover have "names ?h a = nexts ?L (Split p)" by (rule buildInvD(3)[OF inv a])
  ultimately have "Children (store ?h a) = []" by (simp add: names_def)
  then show ?thesis using walk_reach[OF a] pa by blast
qed

lemma mergeStep_leaf:
  assumes "mergeStep h h'" "reach h r a" "Children (store h a) = []"
  shows "\<exists>a'. reach h' r a' \<and> Children (store h' a') = [] \<and> Path (store h' a') = Path (store h a)"
  using assms by (induction rule: mergeStep.induct) (rule mergeChild_leaf)

lemma merges_leaf:
  assumes "mergeStep\<^sup>*\<^sup>* h h'" "reach h r a" "Children (store h a) = []"
  shows "\<exists>a'. reach h' r a' \<and> Children (store h' a') = [] \<and> Path (store h' a') = Path (store h a)"
  using assms
proof (induction rule: rtranclp_induct)
  case base
  then show ?case by blast
next
  case (step y z)
  then obtain a1 where "reach y r a1" "Children (store y a1) = []" "Path (store y a1) = Path (store h a)"
    by blast
  with mergeStep_leaf[OF step.hyps(2), of r a1] show ?case by auto
qed

lemma mergeStep_root:
  assumes "mergeStep h h'" "Name (store h r) = ''ROOT''"
  shows "Name (store h' r) = ''ROOT'' \<and> Path (store h' r) = Path (store h r)
       \<and> Children (store h' r) = Children (store h r)"
  using assms by (induction rule: mergeStep.induct) auto

lemma merges_root:
  assumes "mergeStep\<^sup>*\<^sup>* h h'" "Name (store h r) = ''ROOT''"
  shows "Name (store h' r) = ''ROOT'' \<and> Path (store h' r) = Path (store h r)
       \<and> Children (store h' r) = Children (store h r)"
  using assms
proof (induction rule: rtranclp_induct)
  case base
  then show ?case by simp
next
  case (step y z)
  then show ?case using mergeStep_root[OF step.hyps(2), of r] by simp
qed

lemma buildTree_root:
  "Name (store (fst (buildTree paths hist)) 0) = ''ROOT''
   \<and> Path (store (fst (buildTree paths hist)) 0) = ''.''"
proof -
  have inv: "buildInv (map Split paths) (fst (buildTree paths hist))"
    using buildTree_buildInv by blast
  have "walk (fst (buildTree paths hist)) 0 [] = Some 0" by simp
  from buildInvD(8)[OF inv this] buildInvD(10)[OF inv] show ?thesis by (simp add: pathOf_Nil)
qed

lemma buildInv_wfTree: assumes "buildInv L h" shows "wfTree h 0"
proof -
  have o: "ordered h" by (rule buildInvD(1)[OF assms])
  have "distinct (Children (store h a))" for a
  proof (cases "a < nextRef h")
    case True
    then obtain q where "walk h 0 q = Some a" using buildInvD(5)[OF assms] by blast
    then have "names h a = nexts L q" by (rule buildInvD(3)[OF assms])
    then have "distinct (names h a)" by (simp add: nexts_def)
    then show ?thesis by (simp add: names_def distinct_map)
  next
    case False
    then show ?thesis using ordered_no_children[OF o, of a] by simp
  qed
  moreover have "treeish h 0" using buildInvD(6)[OF assms] by (simp add: treeish_def)
  ultimately show ?thesis using buildInvD(1,2,7,11)[OF assms] by (simp add: wfTree_def distinctC_def)
qed

lemma mergeStepFrom_wfTree:
  assumes "mergeStepFrom r h h'" "wfTree h r"
  shows "wfTree h' r"
  using assms
proof (induction rule: mergeStepFrom.induct)
  case (1 h n c)
  have o: "ordered h" and t: "treeish h r" using 1 by (auto simp: wfTree_def)
  have "r \<le> n" using reach_ge[OF "1.hyps"(1) o] .
  moreover have "n < c" using o "1.hyps"(2) by (auto simp: ordered_def)
  moreover have "\<forall>g \<in> set (Children (store h c)). c < g" using o by (auto simp: ordered_def)
  ultimately have "r \<notin> set (Children (store h c))" by auto
  then have "Parent (store (mergeChild h n c) r) = None" using 1 by (simp add: wfTree_def)
  then show ?case
    using 1 mergeChild_ordered[OF o "1.hyps"(2)] mergeChild_treeish[OF o t "1.hyps"(1,2)]
    by (simp add: wfTree_def mergeChild_pord mergeChild_distinctC)
qed

lemma mergesFrom_wfTree: "(mergeStepFrom r)\<^sup>*\<^sup>* h h' \<Longrightarrow> wfTree h r \<Longrightarrow> wfTree h' r"
  by (induction rule: rtranclp_induct) (auto intro: mergeStepFrom_wfTree)

text \<open>What \<open>NewTreeModel\<close> returns: the compressed heap and the selection it computes.\<close>

lemma findNode_total: "ordered h \<Longrightarrow> \<exists>r. findNode h root t = Some r"
  using findLoop_total[of h t "[root]"] by (auto simp: findNode_def)

lemma findNode_sound:
  assumes "findNode h root t = Some r"
  shows "case r of None \<Rightarrow> \<forall>a. reach h root a \<longrightarrow> Path (store h a) \<noteq> t
                 | Some a \<Rightarrow> Path (store h a) = t \<and> reach h root a"
proof (cases "Path (store h root) = t")
  case True
  then show ?thesis using assms by (auto simp: findNode_def reach.reach_refl)
next
  case False
  then have "findLoop h t [root] = Some r" using assms by (simp add: findNode_def)
  from findLoop_sound[OF this] show ?thesis by (cases r) auto
qed

lemma NewTreeModel_result:
  "\<exists>h. compressTree (fst (buildTree paths hist)) 0 = Some h
      \<and> (mergeStepFrom 0)\<^sup>*\<^sup>* (fst (buildTree paths hist)) h
      \<and> wfTree h 0
      \<and> NewTreeModel paths w ht hist =
          Some (h, \<lparr>Root = Some 0, SelectedNode = Some (defaultSelection h paths), Width = w,
                    Height = ht, ScrollOffset = 0, ColWidths = (\<lambda>_. 0)\<rparr>)"
proof -
  obtain h0 where bt: "buildTree paths hist = (h0, 0)"
    using buildTree_buildInv[of paths hist] by (metis prod.collapse)
  have h0: "fst (buildTree paths hist) = h0" by (simp add: bt)
  have inv: "buildInv (map Split paths) h0"
    using buildTree_buildInv[of paths hist] by (simp add: h0)
  have w0: "wfTree h0 0" by (rule buildInv_wfTree[OF inv])
  then have o0: "ordered h0" by (simp add: wfTree_def)
  from compressTree_total[OF o0, of 0] obtain h where c: "compressTree h0 0 = Some h" by blast
  have m: "(mergeStepFrom 0)\<^sup>*\<^sup>* h0 h" by (rule compressTree_mergesFrom[OF c o0])
  have w: "wfTree h 0" by (rule mergesFrom_wfTree[OF m w0])
  then have o: "ordered h" by (simp add: wfTree_def)
  obtain r where f: "findNode h 0 (hd paths) = Some r" using findNode_total[OF o] by blast
  have "NewTreeModel paths w ht hist =
          Some (h, \<lparr>Root = Some 0, SelectedNode = Some (defaultSelection h paths), Width = w,
                    Height = ht, ScrollOffset = 0, ColWidths = (\<lambda>_. 0)\<rparr>)"
    unfolding NewTreeModel_def bt using c f
    by (cases r) (simp_all add: defaultSelection_def Let_def)
  with c m w show ?thesis unfolding h0 by blast
qed

lemma NewTreeModel_finds:
  assumes "p \<in> set paths" "cleanPath p" "\<forall>q \<in> set paths. \<not> strict_prefix p q"
    and "compressTree (fst (buildTree paths hist)) 0 = Some h"
  shows "\<exists>b. findNode h 0 p = Some (Some b) \<and> Path (store h b) = p \<and> reach h 0 b"
proof -
  let ?h0 = "fst (buildTree paths hist)"
  have inv: "buildInv (map Split paths) ?h0" using buildTree_buildInv by blast
  have o0: "ordered ?h0" by (rule buildInvD(1)[OF inv])
  have m: "mergeStep\<^sup>*\<^sup>* ?h0 h" by (rule compressTree_merges[OF assms(4)])
  have o: "ordered h" by (rule merges_ordered[OF m o0])
  from build_leaf[OF assms(1-3), of hist] obtain a where
    a: "reach ?h0 0 a" "Children (store ?h0 a) = []" "Path (store ?h0 a) = p" by blast
  from merges_leaf[OF m a(1,2)] a(3) obtain a' where
    a': "reach h 0 a'" "Path (store h a') = p" by auto
  obtain r where f: "findNode h 0 p = Some r" using findNode_total[OF o] by blast
  show ?thesis
  proof (cases r)
    case None
    then show ?thesis using findNode_sound[OF f] a' by auto
  next
    case (Some b)
    then show ?thesis using findNode_sound[OF f] f by auto
  qed
qed

section \<open>Properties\<close>

subsection \<open>The empty path list\<close>

text \<open>
  C7. Built from an empty path list, the tree is the root alone (one node allocated,
  no children) and the selection is that root. \<open>SelectedPath\<close> then returns the root's
  path, which is \<open>.\<close> and not the empty string: only a \<open>nil\<close> selection gives the
  empty string, and \<open>NewTreeModel\<close> never leaves the selection \<open>nil\<close>.
\<close>

theorem empty_list_selects_root:
  "\<exists>h m. NewTreeModel [] width height historyPaths = Some (h, m)
      \<and> nextRef h = 1 \<and> Children (store h 0) = []
      \<and> Root m = Some 0 \<and> SelectedNode m = Some 0
      \<and> SelectedPath h m = ''.''"
  apply (simp add: NewTreeModel_def buildTree_def alloc_def emptyHeap_def zeroNode_def Let_def)
  apply (subst compressTree.simps)
  apply (simp add: SelectedPath_def TrimPrefix_def)
  done

subsection \<open>The directory flag after the build\<close>

text \<open>
  C9. The build of the single path \<open>README.md\<close> yields one node below the root,
  named \<open>README.md\<close>, with no children, and its directory flag is set: the flag
  computed from the segment's position is overwritten by the unconditional
  \<open>current.IsDir = true\<close> at the end of the loop body.
\<close>

theorem terminal_node_marked_directory:
  "Name (store (fst (buildTree [''README.md''] (historyOf []))) 1) = ''README.md''
   \<and> Children (store (fst (buildTree [''README.md''] (historyOf []))) 1) = []
   \<and> Children (store (fst (buildTree [''README.md''] (historyOf []))) 0) = [1]
   \<and> IsDir (store (fst (buildTree [''README.md''] (historyOf []))) 1)"
  by code_simp

subsection \<open>The lookup of an input path\<close>

text \<open>
  C10 (amended). For every input path list and every input path \<open>p\<close> that is a clean
  relative path (its segments are non-empty and none is \<open>.\<close> or \<open>..\<close>) and is not a
  proper prefix of another input path, \<open>NewTreeModel\<close> returns, the built and
  compressed tree has a node reachable from the root whose \<open>Path\<close> is \<open>p\<close>, and
  \<open>findNode\<close> returns such a node; it is the selection when \<open>p\<close> is the first path.
  When the first path is a proper prefix of another one, its node can be absorbed:
  for \<open>a\<close>, \<open>a/b\<close> the lookup of \<open>a\<close> finds nothing and the selection is the root's
  first child, whose path is \<open>a/b\<close>.
\<close>

theorem lookup_finds_clean_path:
  assumes "p \<in> set paths" and "cleanPath p" and "\<forall>q \<in> set paths. \<not> strict_prefix p q"
  shows "(\<exists>h m b. NewTreeModel paths width height historyPaths = Some (h, m)
            \<and> reach h 0 b \<and> Path (store h b) = p \<and> findNode h 0 p = Some (Some b)
            \<and> (p = hd paths \<longrightarrow> SelectedNode m = Some b))
       \<and> findNode (fst (the (NewTreeModel [''a'', ''a/b''] 80 20 (historyOf [])))) 0 ''a'' = Some None
       \<and> Children (store (fst (the (NewTreeModel [''a'', ''a/b''] 80 20 (historyOf [])))) 0) = [1]
       \<and> Path (store (fst (the (NewTreeModel [''a'', ''a/b''] 80 20 (historyOf [])))) 1) = ''a/b''
       \<and> SelectedNode (snd (the (NewTreeModel [''a'', ''a/b''] 80 20 (historyOf [])))) = Some 1"
proof -
  from NewTreeModel_result[of paths historyPaths width height] obtain h where
    c: "compressTree (fst (buildTree paths historyPaths)) 0 = Some h" and
    n: "NewTreeModel paths width height historyPaths =
          Some (h, \<lparr>Root = Some 0, SelectedNode = Some (defaultSelection h paths), Width = width,
                    Height = height, ScrollOffset = 0, ColWidths = (\<lambda>_. 0)\<rparr>)"
    by blast
  from NewTreeModel_finds[OF assms c] obtain b where
    b: "findNode h 0 p = Some (Some b)" "Path (store h b) = p" "reach h 0 b" by blast
  have ne: "paths \<noteq> []" using assms(1) by auto
  have "p = hd paths \<longrightarrow> defaultSelection h paths = b"
    using b(1) ne by (auto simp: defaultSelection_def Let_def)
  then have 1: "\<exists>h m b. NewTreeModel paths width height historyPaths = Some (h, m)
            \<and> reach h 0 b \<and> Path (store h b) = p \<and> findNode h 0 p = Some (Some b)
            \<and> (p = hd paths \<longrightarrow> SelectedNode m = Some b)"
    using n b by auto
  have 2: "findNode (fst (the (NewTreeModel [''a'', ''a/b''] 80 20 (historyOf [])))) 0 ''a'' = Some None"
    by code_simp
  have 3: "Children (store (fst (the (NewTreeModel [''a'', ''a/b''] 80 20 (historyOf [])))) 0) = [1]"
    by code_simp
  have 4: "Path (store (fst (the (NewTreeModel [''a'', ''a/b''] 80 20 (historyOf [])))) 1) = ''a/b''"
    by code_simp
  have 5: "SelectedNode (snd (the (NewTreeModel [''a'', ''a/b''] 80 20 (historyOf [])))) = Some 1"
    by code_simp
  from 1 2 3 4 5 show ?thesis by blast
qed

text \<open>The theorem at the paths \<open>a/b\<close>, \<open>a/c\<close> and the path \<open>a/b\<close>.\<close>

theorem lookup_finds_clean_path_witness:
  "\<exists>h m b. NewTreeModel [''a/b'', ''a/c''] 80 20 (historyOf []) = Some (h, m)
      \<and> reach h 0 b \<and> Path (store h b) = ''a/b'' \<and> findNode h 0 ''a/b'' = Some (Some b)
      \<and> SelectedNode m = Some b"
proof -
  have 1: "''a/b'' \<in> set [''a/b'', ''a/c'']" by simp
  have 2: "cleanPath ''a/b''" by code_simp
  have 3: "\<forall>q \<in> set [''a/b'', ''a/c'']. \<not> strict_prefix ''a/b'' q" by (simp add: strict_prefix_def)
  from lookup_finds_clean_path[OF 1 2 3, of 80 20 "historyOf []"] show ?thesis by simp
qed

text \<open>
  The claim without the restriction to clean paths fails: the absolute path \<open>/a\<close> is
  no proper prefix of another input path, yet the tree built from it has no node with that
  path (the nodes are the root, with path \<open>.\<close>, and one node with path \<open>a\<close>), and the
  lookup returns \<open>nil\<close>.
\<close>

theorem absolute_path_not_found:
  "findNode (fst (the (NewTreeModel [''/a''] 80 20 (historyOf [])))) 0 ''/a'' = Some None
   \<and> Children (store (fst (the (NewTreeModel [''/a''] 80 20 (historyOf [])))) 0) = [1]
   \<and> Children (store (fst (the (NewTreeModel [''/a''] 80 20 (historyOf [])))) 1) = []
   \<and> Path (store (fst (the (NewTreeModel [''/a''] 80 20 (historyOf [])))) 0) = ''.''
   \<and> Path (store (fst (the (NewTreeModel [''/a''] 80 20 (historyOf [])))) 1) = ''a''"
  by code_simp

subsection \<open>The selection after a rebuild\<close>

lemma TrimPrefix_no_prefix: "\<not> prefix pre s \<Longrightarrow> TrimPrefix s pre = s"
  by (auto simp: TrimPrefix_def prefix_def) (metis append_take_drop_id)

text \<open>
  C3 (amended). \<open>NewTreeModel\<close> does not look at the previous selection: a rebuild
  selects the node of the first path. For every non-empty path list whose first path is
  clean, is not a proper prefix of another input path and does not begin with \<open>ROOT/\<close>
  (a prefix \<open>SelectedPath\<close> strips), and for every previous tree and window size, the
  rebuild returns and the selected path is the first path: the selection is preserved
  when it was on the first path.
\<close>

theorem rebuild_selects_first_path:
  assumes "paths \<noteq> []" and "cleanPath (hd paths)"
    and "\<forall>q \<in> set paths. \<not> strict_prefix (hd paths) q"
    and "\<not> prefix ''ROOT/'' (hd paths)"
  shows "\<exists>h m. searchDone mwidth mheight tree paths historyPaths = Some (h, m)
           \<and> SelectedPath h m = hd paths"
proof -
  define w where "w = (if mwidth = 0 \<or> mheight - 3 \<le> 0
                       then (if Width tree > 0 then Width tree else 80) else mwidth)"
  define ht where "ht = (if mwidth = 0 \<or> mheight - 3 \<le> 0
                       then (if Height tree > 0 then Height tree else 20) else mheight - 3)"
  have sd: "searchDone mwidth mheight tree paths historyPaths = NewTreeModel paths w ht historyPaths"
    by (simp add: searchDone_def Let_def w_def ht_def)
  from NewTreeModel_result[of paths historyPaths w ht] obtain h where
    c: "compressTree (fst (buildTree paths historyPaths)) 0 = Some h" and
    n: "NewTreeModel paths w ht historyPaths =
          Some (h, \<lparr>Root = Some 0, SelectedNode = Some (defaultSelection h paths), Width = w,
                    Height = ht, ScrollOffset = 0, ColWidths = (\<lambda>_. 0)\<rparr>)"
    by blast
  have "hd paths \<in> set paths" using assms(1) by simp
  from NewTreeModel_finds[OF this assms(2,3) c] obtain b where
    b: "findNode h 0 (hd paths) = Some (Some b)" "Path (store h b) = hd paths" by blast
  have "defaultSelection h paths = b" using b(1) assms(1) by (auto simp: defaultSelection_def Let_def)
  then have "SelectedPath h \<lparr>Root = Some 0, SelectedNode = Some (defaultSelection h paths), Width = w,
                    Height = ht, ScrollOffset = 0, ColWidths = (\<lambda>_. 0)\<rparr> = hd paths"
    using b(2) assms(4) by (simp add: SelectedPath_def TrimPrefix_no_prefix)
  then show ?thesis using sd n by auto
qed

text \<open>The theorem at the paths \<open>a\<close>, \<open>b\<close>, after the selection was moved to \<open>b\<close>.\<close>

theorem rebuild_selects_first_path_witness:
  "\<exists>h m. searchDone 80 23
            (moveSelection (fst (the (NewTreeModel [''a'', ''b''] 80 20 (historyOf []))))
               (snd (the (NewTreeModel [''a'', ''b''] 80 20 (historyOf [])))) 1)
            [''a'', ''b''] (historyOf []) = Some (h, m)
         \<and> SelectedPath h m = ''a''"
proof -
  have 1: "[''a'', ''b''] \<noteq> []" by simp
  have 2: "cleanPath (hd [''a'', ''b''])" by code_simp
  have 3: "\<forall>q \<in> set [''a'', ''b'']. \<not> strict_prefix (hd [''a'', ''b'']) q"
    by (simp add: strict_prefix_def)
  have 4: "\<not> prefix ''ROOT/'' (hd [''a'', ''b''])" by simp
  from rebuild_selects_first_path[OF 1 2 3 4] show ?thesis by simp
qed

text \<open>
  The claim as stated fails: with the paths \<open>a\<close>, \<open>b\<close> and the selection moved down to
  \<open>b\<close>, a rebuild from the same list selects \<open>a\<close>.
\<close>

theorem rebuild_resets_selection:
  "SelectedPath (fst (the (NewTreeModel [''a'', ''b''] 80 20 (historyOf []))))
     (moveSelection (fst (the (NewTreeModel [''a'', ''b''] 80 20 (historyOf []))))
        (snd (the (NewTreeModel [''a'', ''b''] 80 20 (historyOf [])))) 1) = ''b''
   \<and> SelectedPath
        (fst (the (searchDone 80 23
           (moveSelection (fst (the (NewTreeModel [''a'', ''b''] 80 20 (historyOf []))))
              (snd (the (NewTreeModel [''a'', ''b''] 80 20 (historyOf [])))) 1)
           [''a'', ''b''] (historyOf []))))
        (snd (the (searchDone 80 23
           (moveSelection (fst (the (NewTreeModel [''a'', ''b''] 80 20 (historyOf []))))
              (snd (the (NewTreeModel [''a'', ''b''] 80 20 (historyOf [])))) 1)
           [''a'', ''b''] (historyOf [])))) = ''a''"
  by code_simp

subsection \<open>The historical flag under merging\<close>

lemma merges_IsHistory:
  "mergeStep\<^sup>*\<^sup>* h h' \<Longrightarrow> IsHistory (store h' a) = IsHistory (store h a)"
proof (induction rule: rtranclp_induct)
  case base
  show ?case by simp
next
  case (step y z)
  from step.hyps(2) have "IsHistory (store z a) = IsHistory (store y a)"
    by (induction rule: mergeStep.induct) simp
  with step.IH show ?case by simp
qed

text \<open>
  The compression pass never changes a historical flag: a merged node keeps the flag
  the node had before the merge instead of taking the absorbed child's over.
\<close>

lemma merge_keeps_node_history:
  assumes "compressTree h node = Some h'"
  shows "IsHistory (store h' a) = IsHistory (store h a)
       \<and> IsHistory (store (mergeChild h n c) a) = IsHistory (store h a)"
  using merges_IsHistory[OF compressTree_merges[OF assms]] by simp

text \<open>
  C4. With the paths \<open>a/b/c\<close>, \<open>a/b/d\<close> and the historical set \<open>{a/b}\<close>, the build
  marks \<open>b\<close> (node 2) historical and leaves \<open>a\<close> (node 1) unmarked; the compression
  merges \<open>a\<close> with \<open>b\<close>. The merged node has the label and the path \<open>a/b\<close>, a
  path of the historical set, and its flag is not set: the flag of the absorbed child is
  lost, not OR'd in.
\<close>

theorem merge_drops_child_history:
  "Children (store (fst (buildTree [''a/b/c'', ''a/b/d''] (historyOf [''a/b'']))) 1) = [2]
   \<and> \<not> IsHistory (store (fst (buildTree [''a/b/c'', ''a/b/d''] (historyOf [''a/b'']))) 1)
   \<and> IsHistory (store (fst (buildTree [''a/b/c'', ''a/b/d''] (historyOf [''a/b'']))) 2)
   \<and> Children (store (fst (the (NewTreeModel [''a/b/c'', ''a/b/d''] 80 20 (historyOf [''a/b''])))) 0) = [1]
   \<and> Name (store (fst (the (NewTreeModel [''a/b/c'', ''a/b/d''] 80 20 (historyOf [''a/b''])))) 1) = ''a/b''
   \<and> Path (store (fst (the (NewTreeModel [''a/b/c'', ''a/b/d''] 80 20 (historyOf [''a/b''])))) 1) = ''a/b''
   \<and> Children (store (fst (the (NewTreeModel [''a/b/c'', ''a/b/d''] 80 20 (historyOf [''a/b''])))) 1) = [3, 4]
   \<and> historyOf [''a/b''] (Path (store (fst (the (NewTreeModel [''a/b/c'', ''a/b/d''] 80 20 (historyOf [''a/b''])))) 1))
   \<and> \<not> IsHistory (store (fst (the (NewTreeModel [''a/b/c'', ''a/b/d''] 80 20 (historyOf [''a/b''])))) 1)"
  by code_simp


subsection \<open>Navigation at the bounds\<close>

lemma firstIndex_hd: "firstIndex (s # rest) s = Some 0"
  by simp

lemma firstIndex_last: "s \<notin> set front \<Longrightarrow> firstIndex (front @ [s]) s = Some (length front)"
  by (induction front) auto

text \<open>
  C5 (amended). For every tree state: \<open>moveSelection(-1)\<close> on the first entry of the
  parent's child list, \<open>moveSelection(+1)\<close> on its last entry (child lists have no
  duplicates), \<open>enterDirectory\<close> on a node without children, and \<open>leaveDirectory\<close> on
  a child of the synthetic root (a node whose parent has no parent) leave the selection
  unchanged.
\<close>

theorem navigation_bounds:
  "(SelectedNode m = Some s \<and> Parent (store h s) = Some p \<and> Children (store h p) = s # rest
      \<longrightarrow> moveSelection h m (-1) = m)
   \<and> (SelectedNode m = Some s \<and> Parent (store h s) = Some p
        \<and> Children (store h p) = front @ [s] \<and> s \<notin> set front
      \<longrightarrow> moveSelection h m 1 = m)
   \<and> (SelectedNode m = Some s \<and> Children (store h s) = [] \<longrightarrow> enterDirectory h m = m)
   \<and> (SelectedNode m = Some s \<and> Parent (store h s) = Some p \<and> Parent (store h p) = None
      \<longrightarrow> leaveDirectory h m = m)"
  by (auto simp: moveSelection_def enterDirectory_def leaveDirectory_def firstIndex_last)

text \<open>The theorem on the tree of the paths \<open>a\<close>, \<open>b\<close>.\<close>

theorem navigation_bounds_witness:
  "moveSelection (fst (the (NewTreeModel [''a'', ''b''] 80 20 (historyOf []))))
       (snd (the (NewTreeModel [''a'', ''b''] 80 20 (historyOf [])))) (-1)
     = snd (the (NewTreeModel [''a'', ''b''] 80 20 (historyOf [])))
   \<and> moveSelection (fst (the (NewTreeModel [''a'', ''b''] 80 20 (historyOf []))))
       ((snd (the (NewTreeModel [''a'', ''b''] 80 20 (historyOf []))))\<lparr>SelectedNode := Some 2\<rparr>) 1
     = (snd (the (NewTreeModel [''a'', ''b''] 80 20 (historyOf []))))\<lparr>SelectedNode := Some 2\<rparr>
   \<and> enterDirectory (fst (the (NewTreeModel [''a'', ''b''] 80 20 (historyOf []))))
       (snd (the (NewTreeModel [''a'', ''b''] 80 20 (historyOf []))))
     = snd (the (NewTreeModel [''a'', ''b''] 80 20 (historyOf [])))
   \<and> leaveDirectory (fst (the (NewTreeModel [''a'', ''b''] 80 20 (historyOf []))))
       (snd (the (NewTreeModel [''a'', ''b''] 80 20 (historyOf []))))
     = snd (the (NewTreeModel [''a'', ''b''] 80 20 (historyOf [])))"
proof -
  let ?h = "fst (the (NewTreeModel [''a'', ''b''] 80 20 (historyOf [])))"
  let ?m = "snd (the (NewTreeModel [''a'', ''b''] 80 20 (historyOf [])))"
  have s: "SelectedNode ?m = Some 1" by code_simp
  have p1: "Parent (store ?h 1) = Some 0" by code_simp
  have p2: "Parent (store ?h 2) = Some 0" by code_simp
  have c0: "Children (store ?h 0) = 1 # [2]" by code_simp
  have c0': "Children (store ?h 0) = [1] @ [2]" by code_simp
  have c1: "Children (store ?h 1) = []" by code_simp
  have p0: "Parent (store ?h 0) = None" by code_simp
  have n: "(2::nat) \<notin> set [1]" by simp
  note t1 = navigation_bounds[of ?m 1 ?h 0 "[2]" "[]", THEN conjunct1]
  note t2 = navigation_bounds[of "?m\<lparr>SelectedNode := Some 2\<rparr>" 2 ?h 0 "[]" "[1]",
      THEN conjunct2, THEN conjunct1]
  note t3 = navigation_bounds[of ?m 1 ?h 0 "[]" "[]", THEN conjunct2, THEN conjunct2, THEN conjunct1]
  note t4 = navigation_bounds[of ?m 1 ?h 0 "[]" "[]", THEN conjunct2, THEN conjunct2, THEN conjunct2]
  from t1 s p1 c0 have 1: "moveSelection ?h ?m (-1) = ?m" by blast
  from t2 p2 c0' n have 2: "moveSelection ?h (?m\<lparr>SelectedNode := Some 2\<rparr>) 1 = ?m\<lparr>SelectedNode := Some 2\<rparr>"
    by simp
  from t3 s c1 have 3: "enterDirectory ?h ?m = ?m" by blast
  from t4 s p1 p0 have 4: "leaveDirectory ?h ?m = ?m" by blast
  from 1 2 3 4 show ?thesis by blast
qed

text \<open>
  The claim as stated fails for \<open>leave\<close>: with the paths \<open>a/b\<close>, \<open>a/c\<close> the display root
  is the node \<open>a\<close> (node 1), the selection \<open>b\<close> (node 2) is a child of the display
  root, and \<open>leaveDirectory\<close> moves the selection to \<open>a\<close>.
\<close>

theorem leave_reaches_hidden_display_root:
  "displayRoot (fst (the (NewTreeModel [''a/b'', ''a/c''] 80 20 (historyOf [])))) 0 = Some 1
   \<and> SelectedNode (snd (the (NewTreeModel [''a/b'', ''a/c''] 80 20 (historyOf [])))) = Some 2
   \<and> Parent (store (fst (the (NewTreeModel [''a/b'', ''a/c''] 80 20 (historyOf [])))) 2) = Some 1
   \<and> SelectedNode (leaveDirectory (fst (the (NewTreeModel [''a/b'', ''a/c''] 80 20 (historyOf []))))
         (snd (the (NewTreeModel [''a/b'', ''a/c''] 80 20 (historyOf []))))) = Some 1"
  by code_simp

subsection \<open>Visible children\<close>

lemma anc_snoc: "anc h a b \<Longrightarrow> Parent (store h b) = Some c \<Longrightarrow> anc h a c"
  by (induction rule: anc.induct) (auto intro: anc.intros)

lemma anc_unfold:
  "anc h s x \<longleftrightarrow> (\<exists>p. Parent (store h s) = Some p \<and> (x = p \<or> anc h p x))"
  by (auto elim: anc.cases intro: anc.intros)

lemma expandLoop_spec:
  assumes "pord h"
  shows "expandLoop h cur E0 =
           Some (\<lambda>x. E0 x \<or> (case cur of None \<Rightarrow> False | Some s \<Rightarrow> x = s \<or> anc h s x))"
proof (induction "case cur of None \<Rightarrow> 0 | Some s \<Rightarrow> Suc s" arbitrary: cur E0 rule: less_induct)
  case less
  show ?case
  proof (cases cur)
    case None
    then show ?thesis by (subst expandLoop.simps) simp
  next
    case (Some s)
    have m: "(case Parent (store h s) of None \<Rightarrow> 0 | Some p \<Rightarrow> Suc p) < (case cur of None \<Rightarrow> 0 | Some s \<Rightarrow> Suc s)"
      using assms Some by (auto simp: pord_def split: option.splits)
    have "expandLoop h cur E0 = expandLoop h (Parent (store h s)) (E0(s := True))"
      using Some by (subst expandLoop.simps) simp
    also have "\<dots> = Some (\<lambda>x. (E0(s := True)) x \<or>
          (case Parent (store h s) of None \<Rightarrow> False | Some p \<Rightarrow> x = p \<or> anc h p x))"
      by (rule less.hyps[OF m])
    also have "(\<lambda>x. (E0(s := True)) x \<or>
          (case Parent (store h s) of None \<Rightarrow> False | Some p \<Rightarrow> x = p \<or> anc h p x))
        = (\<lambda>x. E0 x \<or> (x = s \<or> anc h s x))"
      by (rule ext) (auto simp: anc_unfold[of h s] split: option.splits)
    finally show ?thesis using Some by simp
  qed
qed

lemma pathChild_spec:
  assumes "pord h"
  shows "\<exists>r. pathChild h node (Some s) = Some r \<and>
           (case r of None \<Rightarrow> \<not> anc h s node
                    | Some c \<Rightarrow> Parent (store h c) = Some node \<and> (c = s \<or> anc h s c))"
proof (induction s rule: less_induct)
  case (less s)
  show ?case
  proof (cases "Parent (store h s) = Some node")
    case True
    then show ?thesis by (subst pathChild.simps) simp
  next
    case False
    show ?thesis
    proof (cases "Parent (store h s)")
      case None
      then have "pathChild h node (Some s) = Some None"
        by (subst pathChild.simps, simp, subst pathChild.simps, simp)
      moreover have "\<not> anc h s node" using None by (simp add: anc_unfold[of h s])
      ultimately show ?thesis by simp
    next
      case (Some p)
      then have "p < s" using assms by (simp add: pord_def)
      from less[OF this] obtain r where r: "pathChild h node (Some p) = Some r"
        "case r of None \<Rightarrow> \<not> anc h p node
                 | Some c \<Rightarrow> Parent (store h c) = Some node \<and> (c = p \<or> anc h p c)" by blast
      have "pathChild h node (Some s) = Some r"
        using Some False r(1) by (subst pathChild.simps) simp
      moreover have "case r of None \<Rightarrow> \<not> anc h s node
                 | Some c \<Rightarrow> Parent (store h c) = Some node \<and> (c = s \<or> anc h s c)"
        using r(2) Some False by (cases r) (auto simp: anc_unfold[of h s])
      ultimately show ?thesis by blast
    qed
  qed
qed

lemma reach_parent:
  assumes "wfTree h r" "reach h r s" "Parent (store h s) = Some p"
  shows "reach h r p \<and> s \<in> set (Children (store h p))"
  using assms(2)
proof (cases rule: reach.cases)
  case reach_refl
  then show ?thesis using assms(1,3) by (simp add: wfTree_def)
next
  case (reach_step y)
  then have "Parent (store h s) = Some y" using assms(1) by (auto simp: wfTree_def treeish_def)
  then show ?thesis using reach_step assms(3) by simp
qed

lemma reach_anc:
  assumes "wfTree h r"
  shows "anc h s b \<Longrightarrow> reach h r s \<Longrightarrow> reach h r b"
proof (induction rule: anc.induct)
  case (anc_parent a b)
  then show ?case using reach_parent[OF assms] by blast
next
  case (anc_up a b c)
  then show ?case using reach_parent[OF assms] by blast
qed

lemma anc_root:
  assumes "wfTree h r"
  shows "reach h r s \<Longrightarrow> s \<noteq> r \<Longrightarrow> anc h s r"
proof (induction rule: reach.induct)
  case reach_refl
  then show ?case by simp
next
  case (reach_step a c)
  have p: "Parent (store h c) = Some a"
    using assms reach_step.hyps by (auto simp: wfTree_def treeish_def)
  show ?case
  proof (cases "a = r")
    case True
    then show ?thesis using p by (auto intro: anc.intros)
  next
    case False
    then show ?thesis using reach_step.IH p by (auto intro: anc.intros)
  qed
qed

text \<open>
  C2. In every well-formed tree with a selection \<open>s\<close> inside it, the expanded map is
  computed and \<open>getVisibleChildren\<close> returns: all the children of the queried node when
  it is the selection or the selection's parent; exactly one node, a child of the queried
  node that is the selection or one of its ancestors, when the queried node is another
  ancestor of the selection (the root is an ancestor of every other selection); and the
  empty list when the queried node is neither the selection, nor one of its ancestors, nor
  the root.
\<close>

theorem visible_children_policy:
  assumes "wfTree h r" and "reach h r s" and "Root m = Some r" and "SelectedNode m = Some s"
  shows "\<exists>E. getExpandedMap h m = Some E
      \<and> (node = s \<or> Parent (store h s) = Some node
           \<longrightarrow> getVisibleChildren h m node E = Some (Children (store h node)))
      \<and> (node \<noteq> s \<and> Parent (store h s) \<noteq> Some node \<and> anc h s node
           \<longrightarrow> (\<exists>c. getVisibleChildren h m node E = Some [c]
                  \<and> c \<in> set (Children (store h node)) \<and> (c = s \<or> anc h s c)))
      \<and> (node \<noteq> s \<and> \<not> anc h s node \<and> node \<noteq> r
           \<longrightarrow> getVisibleChildren h m node E = Some [])
      \<and> (s \<noteq> r \<longrightarrow> anc h s r)"
proof -
  have po: "pord h" using assms(1) by (simp add: wfTree_def)
  define E where "E = (\<lambda>x. x = r \<or> x = s \<or> anc h s x)"
  have "(\<lambda>x. ((\<lambda>_. False)(r := True)) x \<or> (x = s \<or> anc h s x)) = E"
    by (rule ext) (simp add: E_def)
  then have ge: "getExpandedMap h m = Some E"
    using assms(3,4) by (simp add: getExpandedMap_def Let_def expandLoop_spec[OF po])
  have 1: "getVisibleChildren h m node E = Some (Children (store h node))"
    if "node = s \<or> Parent (store h s) = Some node"
    using that assms(4) by (auto simp: getVisibleChildren_def E_def intro: anc.intros)
  have 2: "\<exists>c. getVisibleChildren h m node E = Some [c]
                  \<and> c \<in> set (Children (store h node)) \<and> (c = s \<or> anc h s c)"
    if "node \<noteq> s \<and> Parent (store h s) \<noteq> Some node \<and> anc h s node"
  proof -
    from pathChild_spec[OF po, of node s] obtain x where
      x: "pathChild h node (Some s) = Some x"
         "case x of None \<Rightarrow> \<not> anc h s node
                  | Some c \<Rightarrow> Parent (store h c) = Some node \<and> (c = s \<or> anc h s c)" by blast
    from x(2) that obtain c where c: "x = Some c" "Parent (store h c) = Some node" "c = s \<or> anc h s c"
      by (cases x) auto
    have "reach h r c" using c(3) reach_anc[OF assms(1) _ assms(2)] assms(2) by blast
    then have "c \<in> set (Children (store h node))" using reach_parent[OF assms(1) _ c(2)] by blast
    moreover have "Some node \<noteq> Parent (store h s)" using that by auto
    then have "getVisibleChildren h m node E = Some [c]"
      using that assms(4) x(1) c(1) by (simp add: getVisibleChildren_def E_def)
    ultimately show ?thesis using c(3) by blast
  qed
  have 3: "getVisibleChildren h m node E = Some []" if "node \<noteq> s \<and> \<not> anc h s node \<and> node \<noteq> r"
    using that by (simp add: getVisibleChildren_def E_def)
  have 4: "s \<noteq> r \<longrightarrow> anc h s r" using anc_root[OF assms(1,2)] by blast
  from ge 1 2 3 4 show ?thesis by blast
qed


text \<open>
  The hypotheses of the theorem hold in every state of the engine: \<open>NewTreeModel\<close>
  establishes them and the navigation preserves them.
\<close>

lemma defaultSelection_reach:
  assumes "ordered h"
  shows "reach h 0 (defaultSelection h paths)"
proof -
  have fb: "reach h 0 (if Children (store h 0) \<noteq> [] then hd (Children (store h 0)) else 0)"
    by (auto intro: reach.intros)
  show ?thesis
  proof (cases "paths \<noteq> [] \<and> (\<exists>b. findNode h 0 (hd paths) = Some (Some b))")
    case True
    then obtain b where b: "findNode h 0 (hd paths) = Some (Some b)" by blast
    from findNode_sound[OF b] have "reach h 0 b" by simp
    then show ?thesis using True b by (simp add: defaultSelection_def Let_def)
  next
    case False
    then have "defaultSelection h paths
                 = (if Children (store h 0) \<noteq> [] then hd (Children (store h 0)) else 0)"
      by (auto simp: defaultSelection_def Let_def split: option.splits)
    then show ?thesis using fb by simp
  qed
qed

lemma NewTreeModel_wfState:
  "\<exists>h m. NewTreeModel paths w ht hist = Some (h, m) \<and> wfState h m
         \<and> Root m = Some 0 \<and> SelectedNode m = Some (defaultSelection h paths)"
proof -
  from NewTreeModel_result[of paths hist w ht] obtain h where
    w: "wfTree h 0" and
    n: "NewTreeModel paths w ht hist =
          Some (h, \<lparr>Root = Some 0, SelectedNode = Some (defaultSelection h paths), Width = w,
                    Height = ht, ScrollOffset = 0, ColWidths = (\<lambda>_. 0)\<rparr>)"
    by blast
  have "reach h 0 (defaultSelection h paths)"
    using w by (intro defaultSelection_reach) (simp add: wfTree_def)
  then show ?thesis using w n by (auto simp: wfState_def)
qed

lemma moveSelection_wfState: "wfState h m \<Longrightarrow> wfState h (moveSelection h m delta)"
proof -
  assume a: "wfState h m"
  then obtain r s where rs: "Root m = Some r" "SelectedNode m = Some s" "wfTree h r" "reach h r s"
    by (auto simp: wfState_def)
  show ?thesis
  proof (cases "moveSelection h m delta = m")
    case True
    then show ?thesis using a by simp
  next
    case False
    then obtain p where p: "Parent (store h s) = Some p"
      using rs(2) by (cases "Parent (store h s)") (auto simp: moveSelection_def)
    from False obtain i where fi: "firstIndex (Children (store h p)) s = Some i"
      using rs(2) p by (cases "firstIndex (Children (store h p)) s") (auto simp: moveSelection_def)
    from False have rng: "0 \<le> int i + delta \<and> int i + delta < int (length (Children (store h p)))"
      using rs(2) p fi by (auto simp: moveSelection_def Let_def split: if_splits)
    then have i: "nat (int i + delta) < length (Children (store h p))" by auto
    have m': "moveSelection h m delta = m\<lparr>SelectedNode := Some (Children (store h p) ! nat (int i + delta))\<rparr>"
      using rs(2) p fi rng by (simp add: moveSelection_def Let_def)
    have "reach h r p" using reach_parent[OF rs(3,4) p] by simp
    then have "reach h r (Children (store h p) ! nat (int i + delta))"
      using i by (auto intro: reach.reach_step)
    then show ?thesis using rs m' by (auto simp: wfState_def)
  qed
qed

lemma enterDirectory_wfState: "wfState h m \<Longrightarrow> wfState h (enterDirectory h m)"
proof -
  assume a: "wfState h m"
  then obtain r s where rs: "Root m = Some r" "SelectedNode m = Some s" "wfTree h r" "reach h r s"
    by (auto simp: wfState_def)
  show ?thesis
  proof (cases "IsDir (store h s) \<and> length (Children (store h s)) > 0")
    case True
    then have "hd (Children (store h s)) \<in> set (Children (store h s))" by simp
    then have "reach h r (hd (Children (store h s)))" using rs(4) by (rule reach.reach_step[rotated])
    then show ?thesis using rs True by (simp add: enterDirectory_def wfState_def)
  next
    case False
    then show ?thesis using a rs by (auto simp: enterDirectory_def)
  qed
qed

lemma leaveDirectory_wfState: "wfState h m \<Longrightarrow> wfState h (leaveDirectory h m)"
proof -
  assume a: "wfState h m"
  then obtain r s where rs: "Root m = Some r" "SelectedNode m = Some s" "wfTree h r" "reach h r s"
    by (auto simp: wfState_def)
  show ?thesis
  proof (cases "Parent (store h s)")
    case None
    then show ?thesis using a rs by (simp add: leaveDirectory_def)
  next
    case (Some p)
    have "reach h r p" using reach_parent[OF rs(3,4) Some] by simp
    then show ?thesis using a rs Some by (auto simp: leaveDirectory_def wfState_def)
  qed
qed

text \<open>
  The theorem on the tree of the paths \<open>a/b/c\<close>, \<open>a/b/d\<close>, \<open>a/x\<close>, where the selection is
  \<open>c\<close> (node 3): the parent \<open>b\<close> (node 2) shows both children, the ancestor \<open>a\<close>
  (node 1) shows one of its two children, and \<open>x\<close> (node 5) shows none.
\<close>

theorem visible_children_policy_witness:
  "\<exists>E. getExpandedMap (fst (the (NewTreeModel [''a/b/c'', ''a/b/d'', ''a/x''] 80 20 (historyOf []))))
          (snd (the (NewTreeModel [''a/b/c'', ''a/b/d'', ''a/x''] 80 20 (historyOf [])))) = Some E
     \<and> getVisibleChildren (fst (the (NewTreeModel [''a/b/c'', ''a/b/d'', ''a/x''] 80 20 (historyOf []))))
          (snd (the (NewTreeModel [''a/b/c'', ''a/b/d'', ''a/x''] 80 20 (historyOf [])))) 2 E = Some [3, 4]
     \<and> (\<exists>c. getVisibleChildren (fst (the (NewTreeModel [''a/b/c'', ''a/b/d'', ''a/x''] 80 20 (historyOf []))))
          (snd (the (NewTreeModel [''a/b/c'', ''a/b/d'', ''a/x''] 80 20 (historyOf [])))) 1 E = Some [c]
          \<and> c \<in> set [2, 5])
     \<and> getVisibleChildren (fst (the (NewTreeModel [''a/b/c'', ''a/b/d'', ''a/x''] 80 20 (historyOf []))))
          (snd (the (NewTreeModel [''a/b/c'', ''a/b/d'', ''a/x''] 80 20 (historyOf [])))) 5 E = Some []"
proof -
  let ?N = "NewTreeModel [''a/b/c'', ''a/b/d'', ''a/x''] 80 20 (historyOf [])"
  let ?h = "fst (the ?N)"
  let ?m = "snd (the ?N)"
  from NewTreeModel_wfState[of "[''a/b/c'', ''a/b/d'', ''a/x'']" 80 20 "historyOf []"]
  have ws: "wfState ?h ?m" and rt: "Root ?m = Some 0" by auto
  have sel: "SelectedNode ?m = Some 3" by code_simp
  from ws rt sel have w: "wfTree ?h 0" and r: "reach ?h 0 3" by (auto simp: wfState_def)
  have p3: "Parent (store ?h 3) = Some 2" by code_simp
  have p2: "Parent (store ?h 2) = Some 1" by code_simp
  have p1: "Parent (store ?h 1) = Some 0" by code_simp
  have p0: "Parent (store ?h 0) = None" by code_simp
  have c2: "Children (store ?h 2) = [3, 4]" by code_simp
  have c1: "Children (store ?h 1) = [2, 5]" by code_simp
  have a1: "anc ?h 3 1" using p3 p2 by (auto intro: anc.intros)
  have "\<not> anc ?h 0 5" using p0 by (subst anc_unfold) simp
  then have "\<not> anc ?h 1 5" using p1 by (subst anc_unfold) simp
  then have "\<not> anc ?h 2 5" using p2 by (subst anc_unfold) simp
  then have n5: "\<not> anc ?h 3 5" using p3 by (subst anc_unfold) simp
  from visible_children_policy[OF w r rt sel, of 2] p3 c2 obtain E where
    E: "getExpandedMap ?h ?m = Some E" and v2: "getVisibleChildren ?h ?m 2 E = Some [3, 4]"
    by auto
  from visible_children_policy[OF w r rt sel, of 1] E a1 p3 c1
  have v1: "\<exists>c. getVisibleChildren ?h ?m 1 E = Some [c] \<and> c \<in> set [2, 5]" by auto
  from visible_children_policy[OF w r rt sel, of 5] E n5
  have v5: "getVisibleChildren ?h ?m 5 E = Some []" by auto
  from E v2 v1 v5 show ?thesis by blast
qed

subsection \<open>C1: the merge rule of the compression pass\<close>

lemma anc_less: "anc h a b \<Longrightarrow> pord h \<Longrightarrow> b < a"
  by (induction rule: anc.induct) (auto simp: pord_def dest: less_trans)

lemma anc_linear: "anc h x a \<Longrightarrow> anc h x b \<Longrightarrow> a = b \<or> anc h a b \<or> anc h b a"
proof (induction arbitrary: b rule: anc.induct)
  case (anc_parent x a)
  then show ?case by (auto simp: anc_unfold[of h x b])
next
  case (anc_up x p a)
  from anc_up.prems anc_up.hyps(1) have "b = p \<or> anc h p b" by (auto simp: anc_unfold[of h x b])
  then show ?case using anc_up by auto
qed

lemma reach_anc_down:
  assumes "treeish h n" "reach h n c"
  shows "reach h c x \<Longrightarrow> x = c \<or> anc h x c"
proof (induction rule: reach.induct)
  case reach_refl
  show ?case by simp
next
  case (reach_step a y)
  have "reach h n a" using reach_trans[OF reach_step.hyps(1) assms(2)] .
  then have "Parent (store h y) = Some a" using assms(1) reach_step.hyps(2) by (auto simp: treeish_def)
  then show ?case using reach_step.IH by (auto intro: anc.intros)
qed

lemma siblings_disjoint:
  assumes "ordered h" "pord h" "treeish h n"
    and "c1 \<in> set (Children (store h n))" "c2 \<in> set (Children (store h n))" "c1 \<noteq> c2"
  shows "\<not> (reach h c1 x \<and> reach h c2 x)"
proof
  assume a: "reach h c1 x \<and> reach h c2 x"
  have r1: "reach h n c1" and r2: "reach h n c2"
    using assms(4,5) by (auto intro: reach.intros)
  have p1: "Parent (store h c1) = Some n" and p2: "Parent (store h c2) = Some n"
    using assms(3,4,5) by (auto simp: treeish_def intro: reach.intros)
  have n1: "n < c1" and n2: "n < c2" using assms(1,4,5) by (auto simp: ordered_def)
  have no: "\<not> anc h c d" if "Parent (store h c) = Some n" "n < d" for c d
  proof
    assume "anc h c d"
    then have "d = n \<or> anc h n d" using that(1) by (auto simp: anc_unfold[of h c d])
    then have "d \<le> n" using anc_less[of h n d, OF _ assms(2)] by auto
    then show False using that(2) by simp
  qed
  from a have x1: "x = c1 \<or> anc h x c1" and x2: "x = c2 \<or> anc h x c2"
    using reach_anc_down[OF assms(3) r1] reach_anc_down[OF assms(3) r2] by auto
  then have "anc h c1 c2 \<or> anc h c2 c1" using assms(6) anc_linear[of h x c1 c2] by auto
  then show False using no[OF p1 n2] no[OF p2 n1] by auto
qed















subsection \<open>C6: the order of the input in the tree and in the layout\<close>

lemma sameLinks_refl: "sameLinks h h"
  by (simp add: sameLinks_def)

lemma sameLinks_sym: "sameLinks h h' \<Longrightarrow> sameLinks h' h"
  by (simp add: sameLinks_def)

lemma sameLinks_trans: "sameLinks a b \<Longrightarrow> sameLinks b c \<Longrightarrow> sameLinks a c"
  by (simp add: sameLinks_def)

lemma sameLinks_updX: "sameLinks h h' \<Longrightarrow> sameLinks h (upd h' a (\<lambda>n. n\<lparr>X := v\<rparr>))"
  by (simp add: sameLinks_def upd_def)

lemma sameLinks_updY: "sameLinks h h' \<Longrightarrow> sameLinks h (upd h' a (\<lambda>n. n\<lparr>Y := v\<rparr>))"
  by (simp add: sameLinks_def upd_def)

lemma sameLinks_pathChild_imp:
  assumes "pathChild h0 node0 c0 = Some r0"
  shows "sameLinks h0 h' \<longrightarrow> pathChild h' node0 c0 = Some r0"
proof (rule pathChild.raw_induct[where P = "\<lambda>h node c r. sameLinks h h' \<longrightarrow> pathChild h' node c = Some r",
        OF _ assms])
  fix pc :: "heap \<Rightarrow> ref \<Rightarrow> ref option \<Rightarrow> ref option option" and h node c r
  assume IH: "\<And>h node c r. pc h node c = Some r \<Longrightarrow> sameLinks h h' \<longrightarrow> pathChild h' node c = Some r"
    and eq: "(case c of None \<Rightarrow> Some None
              | Some c \<Rightarrow> if Parent (store h c) = Some node then Some (Some c)
                          else pc h node (Parent (store h c))) = Some r"
  show "sameLinks h h' \<longrightarrow> pathChild h' node c = Some r"
  proof
    assume sl: "sameLinks h h'"
    then have P: "\<And>a. Parent (store h' a) = Parent (store h a)" by (simp add: sameLinks_def)
    show "pathChild h' node c = Some r"
    proof (cases c)
      case None
      then show ?thesis using eq by (subst pathChild.simps) simp
    next
      case (Some x)
      show ?thesis
      proof (cases "Parent (store h x) = Some node")
        case True
        then have "r = Some x" using eq Some by simp
        then show ?thesis unfolding Some by (subst pathChild.simps) (simp add: P True)
      next
        case False
        then have "pc h node (Parent (store h x)) = Some r" using eq Some by simp
        then have "pathChild h' node (Parent (store h x)) = Some r" using IH sl by blast
        then show ?thesis unfolding Some using False by (subst pathChild.simps) (simp add: P)
      qed
    qed
  qed
qed

lemma sameLinks_pathChild_Some:
  assumes "pathChild h node c = Some r" and "sameLinks h h'"
  shows "pathChild h' node c = Some r"
  using sameLinks_pathChild_imp[OF assms(1)] assms(2) by blast

lemma sameLinks_pathChild:
  assumes "sameLinks h h'"
  shows "pathChild h' node c = pathChild h node c"
proof (cases "pathChild h node c")
  case (Some r)
  then show ?thesis using sameLinks_pathChild_Some[OF _ assms] by simp
next
  case None
  show ?thesis
  proof (cases "pathChild h' node c")
    case (Some r)
    then have "pathChild h node c = Some r"
      using sameLinks_pathChild_Some[OF _ sameLinks_sym[OF assms]] by blast
    then show ?thesis using None by simp
  qed (simp add: None)
qed

lemma sameLinks_visible:
  assumes "sameLinks h h'" and "SelectedNode m' = SelectedNode m"
  shows "getVisibleChildren h' m' node e = getVisibleChildren h m node e"
proof -
  have P: "\<And>a. Parent (store h' a) = Parent (store h a)"
    and C: "\<And>a. Children (store h' a) = Children (store h a)"
    using assms(1) by (simp_all add: sameLinks_def)
  show ?thesis
    unfolding getVisibleChildren_def assms(2) sameLinks_pathChild[OF assms(1)] P C ..
qed

lemma visible_sub:
  assumes "wfTree h r" and "reach h r s" and "SelectedNode m = Some s"
  shows "\<exists>vs. getVisibleChildren h m node (onPath h r s) = Some vs
           \<and> (vs = Children (store h node) \<or> (vs = [] \<and> \<not> onPath h r s node)
                \<or> (\<exists>c \<in> set (Children (store h node)). vs = [c] \<and> (c = s \<or> anc h s c)))"
proof -
  have po: "pord h" using assms(1) by (simp add: wfTree_def)
  from pathChild_spec[OF po, of node s] obtain x where
    x: "pathChild h node (Some s) = Some x"
       "case x of None \<Rightarrow> \<not> anc h s node
                | Some c \<Rightarrow> Parent (store h c) = Some node \<and> (c = s \<or> anc h s c)" by blast
  show ?thesis
  proof (cases x)
    case None
    then show ?thesis using x(1) assms(3) by (simp add: getVisibleChildren_def)
  next
    case (Some c)
    then have c: "Parent (store h c) = Some node" "c = s \<or> anc h s c" using x(2) by auto
    have "reach h r c" using c(2) reach_anc[OF assms(1) _ assms(2)] assms(2) by blast
    then have "c \<in> set (Children (store h node))" using reach_parent[OF assms(1) _ c(1)] by blast
    then show ?thesis using x(1) Some assms(3) c(2) by (simp add: getVisibleChildren_def)
  qed
qed

lemma visible_model:
  "SelectedNode m' = SelectedNode m \<Longrightarrow> getVisibleChildren h m' node e = getVisibleChildren h m node e"
  by (simp add: getVisibleChildren_def)

lemma reach_lt: "reach h r a \<Longrightarrow> ordered h \<Longrightarrow> r < nextRef h \<Longrightarrow> a < nextRef h"
  by (induction rule: reach.induct) (auto simp: ordered_def)

lemma anc_reach:
  assumes "wfTree h r"
  shows "anc h s a \<Longrightarrow> reach h r s \<Longrightarrow> reach h a s"
proof (induction rule: anc.induct)
  case (anc_parent s a)
  from reach_parent[OF assms anc_parent(2,1)] show ?case
    by (auto intro: reach.intros)
next
  case (anc_up s b c)
  from reach_parent[OF assms anc_up(4,1)] have "reach h r b" "s \<in> set (Children (store h b))"
    by auto
  then show ?case using anc_up.IH by (auto intro: reach.reach_step)
qed

lemma upt_Suc_map: "map f [0..<Suc n] = f 0 # map (\<lambda>i. f (Suc i)) [0..<n]"
  by (simp only: upt_conv_Cons[OF zero_less_Suc] list.map map_Suc_upt[symmetric] map_map o_def)

lemma rowsInOrder_cong:
  assumes "\<And>v. v \<in> set vs \<Longrightarrow> store h2 v = store h1 v"
  shows "rowsInOrder h2 vs = rowsInOrder h1 vs"
proof (cases vs)
  case Nil
  then show ?thesis by (simp add: rowsInOrder_def)
next
  case (Cons v vs')
  have m: "map (\<lambda>c. Y (store h2 c)) vs = map (\<lambda>c. Y (store h1 c)) vs" using assms by simp
  have e: "store h2 (hd vs) = store h1 (hd vs)" using assms Cons by simp
  show ?thesis unfolding rowsInOrder_def m e ..
qed

lemma rowsInOrder_base:
  assumes "map (\<lambda>c. Y (store h c)) vs = map (\<lambda>i. y0 + int i) [0..<length vs]"
  shows "rowsInOrder h vs"
proof (cases vs)
  case Nil
  then show ?thesis by (simp add: rowsInOrder_def)
next
  case (Cons v vs')
  then have "Y (store h v) = y0" using assms by (simp add: upt_Suc_map del: upt_Suc)
  then show ?thesis using assms Cons by (simp add: rowsInOrder_def)
qed

lemma layoutKids:
  assumes w: "wfTree h r" and rs: "reach h r s" and rn: "reach h r n"
    and step: "\<And>c st. c \<in> set cs0 \<Longrightarrow> sameLinks h (nodes st) \<Longrightarrow> SelectedNode (model st) = Some s
                 \<Longrightarrow> \<exists>st'. layoutAssign (onPath h r s) d1 st c = Some st' \<and> laid h r s d1 st c st'"
  shows "set cs \<subseteq> set cs0 \<Longrightarrow> set cs \<subseteq> set (Children (store h n)) \<Longrightarrow> distinct cs
     \<Longrightarrow> sameLinks h (nodes st) \<Longrightarrow> SelectedNode (model st) = Some s
     \<Longrightarrow> \<exists>st'. ofold (layoutAssign (onPath h r s) d1) cs st = Some st'
           \<and> sameLinks h (nodes st') \<and> SelectedNode (model st') = Some s
           \<and> (\<forall>k. k < d1 \<longrightarrow> yCounters st' k = yCounters st k)
           \<and> yCounters st' d1 = yCounters st d1 + int (length cs)
           \<and> (\<forall>a. (\<forall>c \<in> set cs. \<not> reach h c a) \<longrightarrow> store (nodes st') a = store (nodes st) a)
           \<and> map (\<lambda>c. Y (store (nodes st') c)) cs
               = map (\<lambda>i. yCounters st d1 + int i) [0..<length cs]
           \<and> (\<forall>c \<in> set cs. \<forall>a vs. reach h c a
                 \<longrightarrow> getVisibleChildren h (model st) a (onPath h r s) = Some vs
                 \<longrightarrow> rowsInOrder (nodes st') vs)"
proof (induction cs arbitrary: st)
  case Nil
  then show ?case by simp
next
  case (Cons c cs)
  have o: "ordered h" and po: "pord h" and tr0: "treeish h r"
    using w by (simp_all add: wfTree_def)
  have tr: "treeish h n" using tr0 reach_trans[OF _ rn] unfolding treeish_def by blast
  from step[of c st] Cons.prems obtain st1 where
    s1: "layoutAssign (onPath h r s) d1 st c = Some st1" and l1: "laid h r s d1 st c st1" by auto
  have l1a: "sameLinks h (nodes st1)" "SelectedNode (model st1) = Some s"
    and l1b: "\<And>k. k < d1 \<Longrightarrow> yCounters st1 k = yCounters st k"
    and l1c: "yCounters st1 d1 = yCounters st d1 + 1"
    and l1d: "\<And>a. \<not> reach h c a \<Longrightarrow> store (nodes st1) a = store (nodes st) a"
    and l1e: "Y (store (nodes st1) c) = yCounters st d1"
    and l1f: "\<And>a vs. reach h c a \<Longrightarrow> getVisibleChildren h (model st) a (onPath h r s) = Some vs
                \<Longrightarrow> rowsInOrder (nodes st1) vs"
    using l1 by (simp_all add: laid_def)
  have vm: "getVisibleChildren h (model st1) a (onPath h r s) = getVisibleChildren h (model st) a (onPath h r s)" for a
    using visible_model[of "model st1" "model st"] l1a(2) Cons.prems(5) by simp
  have "\<exists>st'. ofold (layoutAssign (onPath h r s) d1) cs st1 = Some st'
           \<and> sameLinks h (nodes st') \<and> SelectedNode (model st') = Some s
           \<and> (\<forall>k. k < d1 \<longrightarrow> yCounters st' k = yCounters st1 k)
           \<and> yCounters st' d1 = yCounters st1 d1 + int (length cs)
           \<and> (\<forall>a. (\<forall>c \<in> set cs. \<not> reach h c a) \<longrightarrow> store (nodes st') a = store (nodes st1) a)
           \<and> map (\<lambda>c. Y (store (nodes st') c)) cs
               = map (\<lambda>i. yCounters st1 d1 + int i) [0..<length cs]
           \<and> (\<forall>c \<in> set cs. \<forall>a vs. reach h c a
                 \<longrightarrow> getVisibleChildren h (model st1) a (onPath h r s) = Some vs
                 \<longrightarrow> rowsInOrder (nodes st') vs)"
    using Cons.prems by (intro Cons.IH l1a) auto
  then obtain st2 where
    s2: "ofold (layoutAssign (onPath h r s) d1) cs st1 = Some st2"
    and a2: "sameLinks h (nodes st2)" "SelectedNode (model st2) = Some s"
    and b2: "\<And>k. k < d1 \<Longrightarrow> yCounters st2 k = yCounters st1 k"
    and c2: "yCounters st2 d1 = yCounters st1 d1 + int (length cs)"
    and d2: "\<And>a. (\<forall>c \<in> set cs. \<not> reach h c a) \<Longrightarrow> store (nodes st2) a = store (nodes st1) a"
    and e2: "map (\<lambda>c. Y (store (nodes st2) c)) cs
               = map (\<lambda>i. yCounters st1 d1 + int i) [0..<length cs]"
    and f2: "\<And>c a vs. c \<in> set cs \<Longrightarrow> reach h c a
                 \<Longrightarrow> getVisibleChildren h (model st) a (onPath h r s) = Some vs
                 \<Longrightarrow> rowsInOrder (nodes st2) vs"
    unfolding vm by blast
  have below: "\<forall>c' \<in> set cs. \<not> reach h c' x" if "reach h c x" for x
  proof
    fix c' assume c': "c' \<in> set cs"
    then have ne: "c' \<noteq> c" using Cons.prems(3) by auto
    have "c' \<in> set (Children (store h n))" "c \<in> set (Children (store h n))"
      using c' Cons.prems(2) by auto
    from siblings_disjoint[OF o po tr this ne, of x] that show "\<not> reach h c' x" by blast
  qed
  have yc: "Y (store (nodes st2) c) = yCounters st d1"
    using d2[OF below[OF reach.reach_refl]] l1e by simp
  have rows: "rowsInOrder (nodes st2) vs"
    if "reach h c a" "getVisibleChildren h (model st) a (onPath h r s) = Some vs" for a vs
  proof -
    have ra: "reach h r a" using reach_trans[OF that(1)] rn Cons.prems(2)
      by (auto intro: reach.reach_step)
    from visible_sub[OF w rs Cons.prems(5), of a] that(2)
    have "set vs \<subseteq> set (Children (store h a))" by auto
    then have "reach h c v" if "v \<in> set vs" for v
      using that \<open>reach h c a\<close> by (auto intro: reach.reach_step)
    then have "store (nodes st2) v = store (nodes st1) v" if "v \<in> set vs" for v
      using that d2[OF below] by blast
    from rowsInOrder_cong[of vs "nodes st2" "nodes st1", OF this] l1f[OF that]
    show ?thesis by simp
  qed
  have "ofold (layoutAssign (onPath h r s) d1) (c # cs) st = Some st2" using s1 s2 by simp
  moreover have "\<And>k. k < d1 \<Longrightarrow> yCounters st2 k = yCounters st k" using b2 l1b by simp
  moreover have "yCounters st2 d1 = yCounters st d1 + int (length (c # cs))" using c2 l1c by simp
  moreover have "\<And>a. (\<forall>c' \<in> set (c # cs). \<not> reach h c' a) \<Longrightarrow> store (nodes st2) a = store (nodes st) a"
    using d2 l1d by simp
  moreover have "map (\<lambda>c. Y (store (nodes st2) c)) (c # cs)
               = map (\<lambda>i. yCounters st d1 + int i) [0..<length (c # cs)]"
    using e2 yc l1c by (simp add: upt_Suc_map del: upt_Suc)
  moreover have "\<forall>c' \<in> set (c # cs). \<forall>a vs. reach h c' a
                 \<longrightarrow> getVisibleChildren h (model st) a (onPath h r s) = Some vs
                 \<longrightarrow> rowsInOrder (nodes st2) vs"
    using rows f2 by auto
  ultimately show ?case using a2 by blast
qed

lemma layoutAssign_spec:
  assumes w: "wfTree h r" and rs: "reach h r s"
  shows "sameLinks h (nodes st) \<Longrightarrow> SelectedNode (model st) = Some s \<Longrightarrow> reach h r n
     \<Longrightarrow> \<exists>st'. layoutAssign (onPath h r s) d st n = Some st' \<and> laid h r s d st n st'"
proof (induction "nextRef h - n" arbitrary: n st d rule: less_induct)
  case less
  let ?e = "onPath h r s"
  have o: "ordered h" and po: "pord h" and tr: "treeish h r" and rl: "r < nextRef h"
    using w by (simp_all add: wfTree_def)
  define h2 where "h2 = upd (upd (nodes st) n (\<lambda>x. x\<lparr>X := d\<rparr>)) n (\<lambda>x. x\<lparr>Y := yCounters st d\<rparr>)"
  define yc1 where "yc1 = (yCounters st)(d := yCounters st d + 1)"
  define wd where "wd = nodeWidth (model st) n (Name (store h2 n))"
  define m1 where "m1 = (if wd > ColWidths (model st) d
                then (model st)\<lparr>ColWidths := (ColWidths (model st))(d := wd)\<rparr> else model st)"
  define st1 where "st1 = \<lparr>nodes = h2, yCounters = yc1, model = m1\<rparr>"
  have sl2: "sameLinks h h2" unfolding h2_def
    by (intro sameLinks_updX sameLinks_updY less.prems(1))
  have sel1: "SelectedNode m1 = Some s" using less.prems(2) by (simp add: m1_def)
  from visible_sub[OF w rs less.prems(2), of n] obtain vs where
    vs: "getVisibleChildren h (model st) n ?e = Some vs"
    and sub: "vs = Children (store h n) \<or> (vs = [] \<and> \<not> ?e n)
                \<or> (\<exists>c \<in> set (Children (store h n)). vs = [c] \<and> (c = s \<or> anc h s c))"
    by blast
  have gv: "getVisibleChildren h2 m1 n ?e = Some vs"
    using sameLinks_visible[OF sl2, of m1 "model st" n ?e] sel1 less.prems(2) vs by simp
  have "layoutAssign ?e d st n = Option.bind (getVisibleChildren h2 m1 n ?e)
          (\<lambda>children. ofold (layoutAssign ?e (d + 1)) children st1)"
    unfolding h2_def m1_def wd_def yc1_def st1_def
    by (subst layoutAssign.simps, unfold Let_def, rule refl)
  then have unf: "layoutAssign ?e d st n = ofold (layoutAssign ?e (d + 1)) vs st1"
    by (simp add: gv)
  have di: "distinct (Children (store h n))" using w by (simp add: wfTree_def distinctC_def)
  have kids: "set vs \<subseteq> set (Children (store h n))" and dist: "distinct vs"
    using sub di by auto
  have nl: "n < nextRef h" using reach_lt[OF less.prems(3) o rl] .
  have step: "\<exists>st'. layoutAssign ?e (d + 1) st0 c = Some st' \<and> laid h r s (d + 1) st0 c st'"
    if "c \<in> set vs" "sameLinks h (nodes st0)" "SelectedNode (model st0) = Some s" for c st0
  proof -
    have cc: "c \<in> set (Children (store h n))" using that(1) kids by auto
    then have "n < c" "c < nextRef h" using o by (auto simp: ordered_def)
    then have "nextRef h - c < nextRef h - n" using nl by arith
    moreover have "reach h r c" using less.prems(3) cc by (rule reach.reach_step)
    ultimately show ?thesis using less.hyps[of c st0 "d + 1"] that(2,3) by blast
  qed
  have sl2': "sameLinks h (nodes st1)" and sel1': "SelectedNode (model st1) = Some s"
    using sl2 sel1 by (simp_all add: st1_def)
  have vm: "getVisibleChildren h (model st1) a ?e = getVisibleChildren h (model st) a ?e" for a
    using visible_model[of "model st1" "model st"] sel1' less.prems(2) by simp
  have "\<exists>st'. ofold (layoutAssign ?e (d + 1)) vs st1 = Some st'
           \<and> sameLinks h (nodes st') \<and> SelectedNode (model st') = Some s
           \<and> (\<forall>k. k < d + 1 \<longrightarrow> yCounters st' k = yCounters st1 k)
           \<and> yCounters st' (d + 1) = yCounters st1 (d + 1) + int (length vs)
           \<and> (\<forall>a. (\<forall>c \<in> set vs. \<not> reach h c a) \<longrightarrow> store (nodes st') a = store (nodes st1) a)
           \<and> map (\<lambda>c. Y (store (nodes st') c)) vs
               = map (\<lambda>i. yCounters st1 (d + 1) + int i) [0..<length vs]
           \<and> (\<forall>c \<in> set vs. \<forall>a vs'. reach h c a
                 \<longrightarrow> getVisibleChildren h (model st1) a ?e = Some vs'
                 \<longrightarrow> rowsInOrder (nodes st') vs')"
    by (rule layoutKids[OF w rs less.prems(3) step subset_refl kids dist sl2' sel1'])
  then obtain st' where
    s': "ofold (layoutAssign ?e (d + 1)) vs st1 = Some st'"
    and a: "sameLinks h (nodes st')" "SelectedNode (model st') = Some s"
    and b: "\<And>k. k < d + 1 \<Longrightarrow> yCounters st' k = yCounters st1 k"
    and c: "yCounters st' (d + 1) = yCounters st1 (d + 1) + int (length vs)"
    and f: "\<And>a. (\<forall>c \<in> set vs. \<not> reach h c a) \<Longrightarrow> store (nodes st') a = store (nodes st1) a"
    and g: "map (\<lambda>c. Y (store (nodes st') c)) vs
               = map (\<lambda>i. yCounters st1 (d + 1) + int i) [0..<length vs]"
    and k: "\<And>c a vs'. c \<in> set vs \<Longrightarrow> reach h c a
                 \<Longrightarrow> getVisibleChildren h (model st) a ?e = Some vs'
                 \<Longrightarrow> rowsInOrder (nodes st') vs'"
    unfolding vm by blast
  have nk: "\<forall>c \<in> set vs. \<not> reach h c n"
  proof
    fix c assume "c \<in> set vs"
    then have "n < c" using kids o by (auto simp: ordered_def)
    then show "\<not> reach h c n" using reach_ge[OF _ o, of c n] by auto
  qed
  have sn: "store (nodes st') n = store h2 n" using f[OF nk] by (simp add: st1_def)
  have 1: "\<And>k. k < d \<Longrightarrow> yCounters st' k = yCounters st k"
    using b by (simp add: st1_def yc1_def)
  have 2: "yCounters st' d = yCounters st d + 1" using b[of d] by (simp add: st1_def yc1_def)
  have 3: "store (nodes st') a = store (nodes st) a" if "\<not> reach h n a" for a
  proof -
    have "a \<noteq> n" using that by (auto intro: reach.reach_refl)
    moreover have "\<forall>c \<in> set vs. \<not> reach h c a" using that kids reach_child[of _ h n a] by blast
    ultimately show ?thesis using f[of a] by (simp add: st1_def h2_def upd_def)
  qed
  have 4: "X (store (nodes st') n) = d" "Y (store (nodes st') n) = yCounters st d"
    using sn by (simp_all add: h2_def upd_def)
  have 5: "map (\<lambda>c. Y (store (nodes st') c)) vs'
              = map (\<lambda>i. yCounters st (d + 1) + int i) [0..<length vs']"
    if "getVisibleChildren h (model st) n ?e = Some vs'" for vs'
    using that vs g by (simp add: st1_def yc1_def)
  have 6: "rowsInOrder (nodes st') vs'"
    if ra: "reach h n a" and ga: "getVisibleChildren h (model st) a ?e = Some vs'" for a vs'
  proof (cases "a = n")
    case True
    then show ?thesis using 5 ga by (auto intro: rowsInOrder_base)
  next
    case False
    then obtain c where c: "c \<in> set (Children (store h n))" "reach h c a"
      using reach_first[OF ra] by blast
    show ?thesis
    proof (cases "c \<in> set vs")
      case True
      then show ?thesis using k c(2) ga by blast
    next
      case cn: False
      have rc: "reach h r c" using less.prems(3) c(1) by (rule reach.reach_step)
      have rra: "reach h r a" using reach_trans[OF c(2) rc] .
      have "n < c" using c(1) o by (auto simp: ordered_def)
      moreover have "r \<le> n" using reach_ge[OF less.prems(3) o] .
      moreover have "c \<le> a" using reach_ge[OF c(2) o] .
      ultimately have ar: "a \<noteq> r" by arith
      have "\<not> ?e a"
      proof
        assume "?e a"
        then have "a = s \<or> anc h s a" using ar by (simp add: onPath_def)
        then have "reach h a s" using anc_reach[OF w _ rs] by (auto intro: reach.reach_refl)
        then have cs: "reach h c s" using reach_trans c(2) by blast
        then have ns: "reach h n s" using reach_child[OF c(1)] by blast
        have trn: "treeish h n" using tr reach_trans[OF _ less.prems(3)] unfolding treeish_def by blast
        from sub consider (all) "vs = Children (store h n)" | (none) "\<not> ?e n"
          | (one) c0 where "c0 \<in> set (Children (store h n))" "vs = [c0]" "c0 = s \<or> anc h s c0"
          by blast
        then show False
        proof cases
          case all
          then show False using cn c(1) by simp
        next
          case none
          moreover have "s = n \<or> anc h s n" using reach_anc_down[OF tr less.prems(3) ns] .
          ultimately show False by (auto simp: onPath_def)
        next
          case c0: one
          then have "c0 \<noteq> c" using cn by auto
          moreover have "reach h c0 s" using c0(3) anc_reach[OF w _ rs] by (auto intro: reach.reach_refl)
          ultimately show False using siblings_disjoint[OF o po trn c0(1) c(1), of s] cs by blast
        qed
      qed
      moreover from visible_sub[OF w rs less.prems(2), of a] ga
      have "vs' = Children (store h a) \<or> (vs' = [] \<and> \<not> ?e a)
                \<or> (\<exists>c \<in> set (Children (store h a)). vs' = [c] \<and> (c = s \<or> anc h s c))" by simp
      moreover have "getVisibleChildren h (model st) a ?e = Some []"
        using \<open>\<not> ?e a\<close> by (simp add: getVisibleChildren_def)
      ultimately have "vs' = []" using ga by simp
      then show ?thesis by (simp add: rowsInOrder_def)
    qed
  qed
  show ?case unfolding unf laid_def using s' a 1 2 3 4 5 6 by blast
qed

lemma getExpandedMap_onPath:
  assumes "pord h" and "Root m = Some r" and "SelectedNode m = Some s"
  shows "getExpandedMap h m = Some (onPath h r s)"
proof -
  have "(\<lambda>x. ((\<lambda>_. False)(r := True)) x \<or> (x = s \<or> anc h s x)) = onPath h r s"
    by (rule ext) (simp add: onPath_def)
  then show ?thesis
    using assms(2,3) by (simp add: getExpandedMap_def Let_def expandLoop_spec[OF assms(1)])
qed

lemma layoutRoot_spec:
  assumes "wfTree h r" and "reach h r s" and "SelectedNode m = Some s"
  shows "\<exists>l. layoutRoot h m r (onPath h r s) = Some l
           \<and> laid h r s 0 \<lparr>nodes = h, yCounters = (\<lambda>_. 0), model = m\<lparr>ColWidths := (\<lambda>_. 0)\<rparr>\<rparr> r l"
  unfolding layoutRoot_def
  using assms(3) by (intro layoutAssign_spec[OF assms(1,2)]) (simp_all add: sameLinks_refl reach.reach_refl)

lemma nexts_Nil: "nexts (map Split paths) [] = firstOcc (map (\<lambda>p. hd (Split p)) paths)"
proof -
  have "strict_prefix [] (Split x)" for x
    using Split_nonempty[of x] by (cases "Split x") auto
  then have f: "filter (strict_prefix []) (map Split paths) = map Split paths"
    by (intro filter_True) auto
  have "Split p ! 0 = hd (Split p)" for p
    using Split_nonempty[of p] by (simp add: hd_conv_nth)
  then have m: "map (\<lambda>s. s ! 0) (map Split paths) = map (\<lambda>p. hd (Split p)) paths"
    by simp
  show ?thesis unfolding nexts_def f list.size m ..
qed

lemma merges_childLists:
  "mergeStep\<^sup>*\<^sup>* h0 h \<Longrightarrow> \<forall>n. \<exists>n'. Children (store h n) = Children (store h0 n')"
proof (induction rule: rtranclp_induct)
  case base
  show ?case by blast
next
  case (step y z)
  from step(2) show ?case
  proof (cases rule: mergeStep.cases)
    case (1 n c)
    show ?thesis unfolding 1(1) using step.IH by simp
  qed
qed

text \<open>
  C6. For every input list (with or without repetitions): in the tree that \<open>buildTree\<close>
  builds, the names of the children of every node are the segments that follow the node's
  segments in the input paths, each once, in the order of their first occurrence (every
  node is at the end of a walk from the root); at the top level these are the first
  segments of the paths in the order of their first occurrence. The compression keeps
  the child list of the root, and every child list of the final tree is the child list of
  a node of the built tree. The initial layout returns; it changes coordinates only; it
  puts the visible children of the root (all its children, or the one that leads to the
  selection) in the rows 0, 1, 2, ... in the order of the child list; and the visible
  children of every node are in consecutive rows in the order of the child list.
\<close>

theorem input_order_preserved:
  "\<exists>h0 h m e l vs.
      buildTree paths hist = (h0, 0)
    \<and> (\<forall>q a. walk h0 0 q = Some a \<longrightarrow> names h0 a = nexts (map Split paths) q)
    \<and> (\<forall>a < nextRef h0. \<exists>q. walk h0 0 q = Some a)
    \<and> names h0 0 = firstOcc (map (\<lambda>p. hd (Split p)) paths)
    \<and> NewTreeModel paths w ht hist = Some (h, m)
    \<and> (\<forall>n. \<exists>n'. Children (store h n) = Children (store h0 n'))
    \<and> Children (store h 0) = Children (store h0 0)
    \<and> getExpandedMap h m = Some e \<and> layoutRoot h m 0 e = Some l
    \<and> sameLinks h (nodes l)
    \<and> getVisibleChildren h m 0 e = Some vs
    \<and> (vs = Children (store h 0) \<or> (\<exists>c \<in> set (Children (store h 0)). vs = [c]))
    \<and> map (\<lambda>c. Y (store (nodes l) c)) vs = map int [0..<length vs]
    \<and> (\<forall>n vs'. reach h 0 n \<longrightarrow> getVisibleChildren h m n e = Some vs'
          \<longrightarrow> rowsInOrder (nodes l) vs')"
proof -
  obtain h0 where bt: "buildTree paths hist = (h0, 0)"
    using buildTree_buildInv[of paths hist] by (cases "buildTree paths hist") auto
  then have bi: "buildInv (map Split paths) h0" using buildTree_buildInv[of paths hist] by simp
  note D = buildInvD[OF bi]
  have 1: "\<forall>q a. walk h0 0 q = Some a \<longrightarrow> names h0 a = nexts (map Split paths) q"
    using D(3) by blast
  have 2: "\<forall>a < nextRef h0. \<exists>q. walk h0 0 q = Some a" using D(5) by blast
  have 3: "names h0 0 = firstOcc (map (\<lambda>p. hd (Split p)) paths)"
    using D(3)[of "[]" 0] by (simp add: nexts_Nil)
  from NewTreeModel_result[of paths hist w ht] bt obtain h where
    ct: "compressTree h0 0 = Some h" and wf: "wfTree h 0" and
    n: "NewTreeModel paths w ht hist =
          Some (h, \<lparr>Root = Some 0, SelectedNode = Some (defaultSelection h paths), Width = w,
                    Height = ht, ScrollOffset = 0, ColWidths = (\<lambda>_. 0)\<rparr>)"
    by auto
  define s where "s = defaultSelection h paths"
  define m where "m = \<lparr>Root = Some 0, SelectedNode = Some s, Width = w,
                    Height = ht, ScrollOffset = 0, ColWidths = (\<lambda>_. 0)\<rparr>"
  have n': "NewTreeModel paths w ht hist = Some (h, m)" using n by (simp add: m_def s_def)
  have ms: "mergeStep\<^sup>*\<^sup>* h0 h" using compressTree_merges[OF ct] .
  have 4: "\<forall>n. \<exists>n'. Children (store h n) = Children (store h0 n')"
    using merges_childLists[OF ms] .
  have 5: "Children (store h 0) = Children (store h0 0)"
    using merges_root[OF ms D(10)] by simp
  have rs: "reach h 0 s" unfolding s_def
    using wf by (intro defaultSelection_reach) (simp add: wfTree_def)
  have po: "pord h" using wf by (simp add: wfTree_def)
  have sel: "SelectedNode m = Some s" and rt: "Root m = Some 0" by (simp_all add: m_def)
  let ?e = "onPath h 0 s"
  have 6: "getExpandedMap h m = Some ?e" using getExpandedMap_onPath[OF po rt sel] .
  let ?st = "\<lparr>nodes = h, yCounters = (\<lambda>_. 0), model = m\<lparr>ColWidths := (\<lambda>_. 0)\<rparr>\<rparr>"
  from layoutRoot_spec[OF wf rs sel] obtain l where
    l: "layoutRoot h m 0 ?e = Some l" and la: "laid h 0 s 0 ?st 0 l" by blast
  have vm: "getVisibleChildren h (model ?st) a ?e = getVisibleChildren h m a ?e" for a
    by (rule visible_model) simp
  have 7: "sameLinks h (nodes l)" using la by (simp add: laid_def)
  from visible_sub[OF wf rs sel, of 0] obtain vs where
    vs: "getVisibleChildren h m 0 ?e = Some vs"
    and sub: "vs = Children (store h 0) \<or> (vs = [] \<and> \<not> ?e 0)
                \<or> (\<exists>c \<in> set (Children (store h 0)). vs = [c] \<and> (c = s \<or> anc h s c))"
    by blast
  have 8: "vs = Children (store h 0) \<or> (\<exists>c \<in> set (Children (store h 0)). vs = [c])"
    using sub by (auto simp: onPath_def)
  have "map (\<lambda>c. Y (store (nodes l) c)) vs = map (\<lambda>i. yCounters ?st (0 + 1) + int i) [0..<length vs]"
    using la vs unfolding laid_def vm by blast
  then have 9: "map (\<lambda>c. Y (store (nodes l) c)) vs = map int [0..<length vs]" by simp
  have 10: "\<forall>n vs'. reach h 0 n \<longrightarrow> getVisibleChildren h m n ?e = Some vs'
          \<longrightarrow> rowsInOrder (nodes l) vs'"
    using la unfolding laid_def vm by blast
  show ?thesis using bt 1 2 3 n' 4 5 6 l 7 vs 8 9 10 by blast
qed

text \<open>
  The theorem on the paths \<open>b\<close>, \<open>a/x\<close>, \<open>a/y\<close>: the top level is \<open>b\<close> (node 1), then
  \<open>a\<close> (node 2), which is not the alphabetical order, and the layout puts them in the
  rows 0 and 1.
\<close>

theorem input_order_preserved_witness:
  "names (fst (buildTree [''b'', ''a/x'', ''a/y''] (historyOf []))) 0 = [''b'', ''a'']
   \<and> Children (store (fst (the (NewTreeModel [''b'', ''a/x'', ''a/y''] 80 20 (historyOf [])))) 0) = [1, 2]
   \<and> (\<exists>e l. getExpandedMap (fst (the (NewTreeModel [''b'', ''a/x'', ''a/y''] 80 20 (historyOf []))))
               (snd (the (NewTreeModel [''b'', ''a/x'', ''a/y''] 80 20 (historyOf [])))) = Some e
         \<and> layoutRoot (fst (the (NewTreeModel [''b'', ''a/x'', ''a/y''] 80 20 (historyOf []))))
               (snd (the (NewTreeModel [''b'', ''a/x'', ''a/y''] 80 20 (historyOf [])))) 0 e = Some l
         \<and> map (\<lambda>c. Y (store (nodes l) c)) [1, 2] = [0, 1])"
proof -
  let ?P = "[''b'', ''a/x'', ''a/y'']"
  let ?N = "NewTreeModel ?P 80 20 (historyOf [])"
  let ?h = "fst (the ?N)"
  let ?m = "snd (the ?N)"
  from input_order_preserved[of ?P "historyOf []" 80 20] obtain h0 h m e l vs where
    bt: "buildTree ?P (historyOf []) = (h0, 0)"
    and nm: "names h0 0 = firstOcc (map (\<lambda>p. hd (Split p)) ?P)"
    and n: "?N = Some (h, m)"
    and ch: "Children (store h 0) = Children (store h0 0)"
    and e: "getExpandedMap h m = Some e" and l: "layoutRoot h m 0 e = Some l"
    and vs: "getVisibleChildren h m 0 e = Some vs"
    and sub: "vs = Children (store h 0) \<or> (\<exists>c \<in> set (Children (store h 0)). vs = [c])"
    and rows: "map (\<lambda>c. Y (store (nodes l) c)) vs = map int [0..<length vs]"
    by blast
  have hm: "h = ?h" "m = ?m" using n by simp_all
  have "firstOcc (map (\<lambda>p. hd (Split p)) ?P) = [''b'', ''a'']" by code_simp
  then have 1: "names (fst (buildTree ?P (historyOf []))) 0 = [''b'', ''a'']" using nm bt by simp
  have 2: "Children (store ?h 0) = [1, 2]" by code_simp
  have ee: "e = the (getExpandedMap ?h ?m)" using e hm by simp
  have "getVisibleChildren ?h ?m 0 (the (getExpandedMap ?h ?m)) = Some [1, 2]" by code_simp
  then have "vs = [1, 2]" using vs hm ee by simp
  then have 3: "map (\<lambda>c. Y (store (nodes l) c)) [1, 2] = [0, 1]" using rows by (simp add: upt_rec)
  have e': "getExpandedMap ?h ?m = Some e" using e hm by simp
  have l': "layoutRoot ?h ?m 0 e = Some l" using l hm by simp
  show ?thesis by (intro conjI exI[of _ e] exI[of _ l]) (rule 1 2 e' l' 3)+
qed

subsection \<open>C8: View and the dimensions of the viewport\<close>











lemma flatten_empty: "dims m cv \<Longrightarrow> Height m = 0 \<Longrightarrow> flatten k i cv = []"
  by (simp add: dims_def)
























lemma mergeChild_X [simp]: "X (store (mergeChild h n c) a) = X (store h a)"
  by (simp add: mergeChild_def Let_def foldl_reparent_store)










end
